theory Spec2Isabelle
  imports Main
begin

section \<open>The configuration parser of i3 (src/config_parser.c)\<close>

text \<open>
  The parser is a table-driven state machine. The tables themselves
  (\<^verbatim>\<open>GENERATED_config_enums.h\<close>, \<^verbatim>\<open>GENERATED_config_tokens.h\<close>,
  \<^verbatim>\<open>GENERATED_config_call.h\<close>) are generated at build time and are not part of the
  source file; the embedding takes them as parameters: \<open>tokens\<close> maps a state to its
  ordered token descriptors, and the handlers are functions of the call identifier.
\<close>

subsection \<open>Data\<close>

text \<open>
  \<^verbatim>\<open>cmdp_state\<close> is a generated enumeration. Two of its members are named in the parser:
  \<^verbatim>\<open>INITIAL\<close> and the sentinel \<^verbatim>\<open>__CALL\<close> (written \<open>CALL\<close> here, an Isabelle name cannot
  start with an underscore). Every other member is \<open>State n\<close>.
\<close>

datatype cmdp_state = INITIAL | CALL | State nat

text \<open>\<^verbatim>\<open>struct token\<close>. The \<^verbatim>\<open>identifier\<close> pointer may be NULL (\<open>None\<close>).\<close>

record cmdp_token =
  name :: string
  token_identifier :: "string option"
  token_next_state :: cmdp_state
  call_identifier :: nat

text \<open>
  \<^verbatim>\<open>struct stack_entry\<close>. The member \<^verbatim>\<open>val\<close> is a union of \<^verbatim>\<open>char *str\<close> and \<^verbatim>\<open>long num\<close>:
  \<open>VStr s\<close> is a pointer to an allocated copy of \<open>s\<close>, \<open>VNum n\<close> the integer \<open>n\<close>;
  the all-zero union (a NULL \<^verbatim>\<open>str\<close>, a zero \<^verbatim>\<open>num\<close>) is \<open>VNum 0\<close>.
\<close>

datatype stack_type = STACK_STR | STACK_LONG

datatype stack_val = VStr string | VNum int

record stack_entry =
  entry_identifier :: "string option"
  entry_type :: stack_type
  val :: stack_val

text \<open>
  The ways in which a run of the parser stops instead of returning.
  \<^item> \<open>StackFull\<close>: \<^verbatim>\<open>push_string\<close> and \<^verbatim>\<open>push_long\<close> print their BUG message and \<^verbatim>\<open>exit(1)\<close>.
  \<^item> \<open>AssertionFailed\<close>: \<^verbatim>\<open>assert(error_token_found)\<close>.
  \<^item> \<open>StatelistOverrun\<close>: \<^verbatim>\<open>statelist[statelist_idx++] = _next_state\<close> with
    \<^verbatim>\<open>statelist_idx == 10\<close>. The C code has no check there: the store lands behind the
    array and the behaviour of the program is undefined from then on.
  \<^item> \<open>UnionMisread\<close>: the union \<^verbatim>\<open>val\<close> is read through the member that was not stored
    (a \<^verbatim>\<open>long\<close> taken as a \<^verbatim>\<open>char *\<close> or the reverse). The C code has no check there either.
\<close>

datatype fault = StackFull | AssertionFailed | StatelistOverrun | UnionMisread

text \<open>Sequencing of steps that may stop, and the image of a result.\<close>

definition bind_fault :: "fault + 'a \<Rightarrow> ('a \<Rightarrow> fault + 'b) \<Rightarrow> fault + 'b" where
  "bind_fault r f = (case r of Inl e \<Rightarrow> Inl e | Inr x \<Rightarrow> f x)"

fun map_ok :: "('a \<Rightarrow> 'b) \<Rightarrow> fault + 'a \<Rightarrow> fault + 'b" where
  "map_ok f (Inl e) = Inl e"
| "map_ok f (Inr x) = Inr (f x)"

subsection \<open>The stack of captured values\<close>

text \<open>\<^verbatim>\<open>static struct stack_entry stack[10]\<close>, zero-initialised.\<close>

definition unused_entry :: stack_entry where
  "unused_entry = \<lparr>entry_identifier = None, entry_type = STACK_STR, val = VNum 0\<rparr>"

definition static_stack :: "stack_entry list" where
  "static_stack = replicate 10 unused_entry"

text \<open>
  \<^verbatim>\<open>push_string\<close>: the loop over \<^verbatim>\<open>c\<close>, started at \<open>c\<close>. A slot with another identifier
  is skipped; a free slot takes the copy of the string; a slot with this identifier gets
  \<^verbatim>\<open>"%s,%s"\<close> of its old string and the new one.
\<close>

function push_string_from :: "nat \<Rightarrow> string \<Rightarrow> string \<Rightarrow> stack_entry list \<Rightarrow> fault + stack_entry list" where
  "push_string_from c ident str stk =
     (if c < 10 then
        (case entry_identifier (stk ! c) of
           None \<Rightarrow> Inr (stk[c := \<lparr>entry_identifier = Some ident, entry_type = STACK_STR, val = VStr str\<rparr>])
         | Some i \<Rightarrow>
             if i \<noteq> ident then push_string_from (c + 1) ident str stk
             else (case val (stk ! c) of
                     VStr prev \<Rightarrow> Inr (stk[c := (stk ! c)\<lparr>val := VStr (prev @ '','' @ str)\<rparr>])
                   | VNum n \<Rightarrow> Inl UnionMisread))
      else Inl StackFull)"
  by pat_completeness auto
termination
  by (relation "measure (\<lambda>(c, ident, str, stk). 10 - c)") auto

definition push_string :: "string \<Rightarrow> string \<Rightarrow> stack_entry list \<Rightarrow> fault + stack_entry list" where
  "push_string ident str stk = push_string_from 0 ident str stk"

text \<open>\<^verbatim>\<open>push_long\<close>: the first free slot takes the number; no slot is compared with \<open>ident\<close>.\<close>

function push_long_from :: "nat \<Rightarrow> string \<Rightarrow> int \<Rightarrow> stack_entry list \<Rightarrow> fault + stack_entry list" where
  "push_long_from c ident num stk =
     (if c < 10 then
        (if entry_identifier (stk ! c) \<noteq> None then push_long_from (c + 1) ident num stk
         else Inr (stk[c := \<lparr>entry_identifier = Some ident, entry_type = STACK_LONG, val = VNum num\<rparr>]))
      else Inl StackFull)"
  by pat_completeness auto
termination
  by (relation "measure (\<lambda>(c, ident, num, stk). 10 - c)") auto

definition push_long :: "string \<Rightarrow> int \<Rightarrow> stack_entry list \<Rightarrow> fault + stack_entry list" where
  "push_long ident num stk = push_long_from 0 ident num stk"

text \<open>
  \<^verbatim>\<open>get_string\<close> returns \<^verbatim>\<open>stack[c].val.str\<close> of the first slot with this identifier, and
  NULL (\<open>None\<close>) when the scan reaches a free slot or the end of the array.
\<close>

function get_string_from :: "nat \<Rightarrow> string \<Rightarrow> stack_entry list \<Rightarrow> fault + string option" where
  "get_string_from c ident stk =
     (if c < 10 then
        (case entry_identifier (stk ! c) of
           None \<Rightarrow> Inr None
         | Some i \<Rightarrow>
             if ident = i then
               (case val (stk ! c) of
                  VStr s \<Rightarrow> Inr (Some s)
                | VNum n \<Rightarrow> if n = 0 then Inr None else Inl UnionMisread)
             else get_string_from (c + 1) ident stk)
      else Inr None)"
  by pat_completeness auto
termination
  by (relation "measure (\<lambda>(c, ident, stk). 10 - c)") auto

definition get_string :: "string \<Rightarrow> stack_entry list \<Rightarrow> fault + string option" where
  "get_string ident stk = get_string_from 0 ident stk"

text \<open>\<^verbatim>\<open>get_long\<close> returns \<^verbatim>\<open>stack[c].val.num\<close> of the first slot with this identifier, else 0.\<close>

function get_long_from :: "nat \<Rightarrow> string \<Rightarrow> stack_entry list \<Rightarrow> fault + int" where
  "get_long_from c ident stk =
     (if c < 10 then
        (case entry_identifier (stk ! c) of
           None \<Rightarrow> Inr 0
         | Some i \<Rightarrow>
             if ident = i then
               (case val (stk ! c) of
                  VNum n \<Rightarrow> Inr n
                | VStr s \<Rightarrow> Inl UnionMisread)
             else get_long_from (c + 1) ident stk)
      else Inr 0)"
  by pat_completeness auto
termination
  by (relation "measure (\<lambda>(c, ident, stk). 10 - c)") auto

definition get_long :: "string \<Rightarrow> stack_entry list \<Rightarrow> fault + int" where
  "get_long ident stk = get_long_from 0 ident stk"

text \<open>
  \<^verbatim>\<open>clear_stack\<close> visits every slot of the array: a string is freed, the identifier and the
  value are zeroed, \<^verbatim>\<open>type\<close> is left as it is.
\<close>

definition clear_stack :: "stack_entry list \<Rightarrow> stack_entry list" where
  "clear_stack stk = map (\<lambda>e. e\<lparr>entry_identifier := None, val := VNum 0\<rparr>) stk"


subsection \<open>The state of a parse\<close>

text \<open>
  The semantic side of the parser (the handlers behind \<^verbatim>\<open>GENERATED_call\<close> and the criteria
  functions) lives in other files. It is a parameter: \<open>'h\<close> is whatever the handlers
  keep, \<open>GENERATED_call\<close> gets the call identifier and the stack it reads through
  \<^verbatim>\<open>get_string\<close> and \<^verbatim>\<open>get_long\<close> and yields \<^verbatim>\<open>subcommand_output.next_state\<close>.
\<close>

record 'h handlers =
  GENERATED_call :: "nat \<Rightarrow> stack_entry list \<Rightarrow> 'h \<Rightarrow> cmdp_state \<times> 'h"
  cfg_criteria_init :: "'h \<Rightarrow> 'h"

text \<open>
  The file-level variables \<^verbatim>\<open>state\<close>, \<^verbatim>\<open>stack\<close>, \<^verbatim>\<open>statelist\<close>, \<^verbatim>\<open>statelist_idx\<close>, the
  locals \<^verbatim>\<open>walk\<close> (as an offset into the input) and \<^verbatim>\<open>linecnt\<close> of \<^verbatim>\<open>parse_config\<close>, and the
  \<^verbatim>\<open>error\<close> strings of the JSON maps written so far. The log lines, the caret line and the
  other JSON keys are not modelled.
\<close>

record 'h parser =
  state :: cmdp_state
  stack :: "stack_entry list"
  statelist :: "cmdp_state list"
  statelist_idx :: nat
  walk :: nat
  linecnt :: nat
  errormessages :: "string list"
  semantic :: 'h

subsection \<open>Transitions\<close>

text \<open>The search loop of \<^verbatim>\<open>next_state\<close>: the first \<open>i < statelist_idx\<close> holding the state.\<close>

function statelist_search :: "nat \<Rightarrow> nat \<Rightarrow> cmdp_state list \<Rightarrow> cmdp_state \<Rightarrow> nat option" where
  "statelist_search i idx sl s =
     (if i < idx then (if sl ! i \<noteq> s then statelist_search (i + 1) idx sl s else Some i)
      else None)"
  by pat_completeness auto
termination
  by (relation "measure (\<lambda>(i, idx, sl, s). idx - i)") auto

text \<open>
  \<^verbatim>\<open>next_state\<close>, in its two halves. \<open>commit\<close> is the first: the handler call on
  \<^verbatim>\<open>__CALL\<close> with the \<^verbatim>\<open>clear_stack\<close> after it, the assignment to \<^verbatim>\<open>state\<close>, and the
  \<^verbatim>\<open>clear_stack\<close> on \<^verbatim>\<open>INITIAL\<close>. The second half is the update of the state list.
\<close>

definition commit :: "'h handlers \<Rightarrow> cmdp_token \<Rightarrow> 'h parser \<Rightarrow> 'h parser" where
  "commit hs tok st =
     (let st1 =
            (if token_next_state tok = CALL then
               (let (n, h) = GENERATED_call hs (call_identifier tok) (stack st) (semantic st)
                in st\<lparr>semantic := h, stack := clear_stack (stack st), state := n\<rparr>)
             else st\<lparr>state := token_next_state tok\<rparr>)
      in if state st1 = INITIAL then st1\<lparr>stack := clear_stack (stack st1)\<rparr> else st1)"

definition next_state :: "'h handlers \<Rightarrow> cmdp_token \<Rightarrow> 'h parser \<Rightarrow> fault + 'h parser" where
  "next_state hs tok st =
     (let st3 = commit hs tok st
      in case statelist_search 0 (statelist_idx st3) (statelist st3) (state st3) of
           Some i \<Rightarrow> Inr (st3\<lparr>statelist_idx := i + 1\<rparr>)
         | None \<Rightarrow>
             if statelist_idx st3 < 10 then
               Inr (st3\<lparr>statelist := (statelist st3)[statelist_idx st3 := state st3],
                        statelist_idx := statelist_idx st3 + 1\<rparr>)
             else Inl StatelistOverrun)"

subsection \<open>The lexer\<close>

text \<open>
  The input is a C string: \<open>inp\<close> holds its bytes before the terminating NUL (none of
  them is NUL), and \<open>peek inp i\<close> is \<^verbatim>\<open>input[i]\<close>, the NUL at \<open>i = length inp\<close>.
\<close>

definition peek :: "string \<Rightarrow> nat \<Rightarrow> char" where
  "peek inp i = (if i < length inp then inp ! i else CHR 0x00)"

text \<open>
  \<^verbatim>\<open>while (cont) walk++;\<close> as a function of the start. Every such loop of the lexer is
  false at the NUL, so the bound \<open>length inp\<close> never ends one early; the loop that skips a
  line after an error runs while \<^verbatim>\<open>(walk - input) <= len\<close>, bound \<open>length inp + 1\<close>.
\<close>

function scan_while :: "(nat \<Rightarrow> bool) \<Rightarrow> nat \<Rightarrow> nat \<Rightarrow> nat" where
  "scan_while cont bound w = (if w < bound \<and> cont w then scan_while cont bound (w + 1) else w)"
  by pat_completeness auto
termination
  by (relation "measure (\<lambda>(cont, bound, w). bound - w)") auto

definition skip_whitespace :: "string \<Rightarrow> nat \<Rightarrow> nat" where
  "skip_whitespace inp w =
     scan_while (\<lambda>i. (peek inp i = CHR '' '' \<or> peek inp i = CHR 0x09) \<and> peek inp i \<noteq> CHR 0x00)
       (length inp) w"

text \<open>\<^verbatim>\<open>tolower\<close> in the C locale, and \<^verbatim>\<open>strncasecmp(s1, s2, n) == 0\<close> with \<open>s1\<close> the input at \<open>w\<close>.\<close>

definition tolower :: "char \<Rightarrow> char" where
  "tolower c = (let n = (of_char c :: nat) in if 65 \<le> n \<and> n \<le> 90 then char_of (n + 32) else c)"

fun strncasecmp_eq :: "string \<Rightarrow> nat \<Rightarrow> string \<Rightarrow> nat \<Rightarrow> bool" where
  "strncasecmp_eq inp w s2 0 = True"
| "strncasecmp_eq inp w s2 (Suc n) =
     (let c1 = tolower (peek inp w);
          c2 = tolower (case s2 of [] \<Rightarrow> CHR 0x00 | c # cs \<Rightarrow> c)
      in if c1 \<noteq> c2 then False
         else if c1 = CHR 0x00 then True
         else strncasecmp_eq inp (w + 1) (tl s2) n)"

text \<open>
  \<^verbatim>\<open>strtol(walk, &end, 10)\<close>: the value, \<^verbatim>\<open>end\<close>, and whether \<^verbatim>\<open>errno\<close> is \<^verbatim>\<open>ERANGE\<close>.
  White space is skipped, a sign is optional, the digits follow; without a digit nothing is
  converted and \<^verbatim>\<open>end\<close> is the start. \<^verbatim>\<open>long\<close> has 64 bits.
\<close>

definition isspace :: "char \<Rightarrow> bool" where
  "isspace c = (c = CHR '' '' \<or> (9 \<le> (of_char c :: nat) \<and> (of_char c :: nat) \<le> 13))"

definition isdigit :: "char \<Rightarrow> bool" where
  "isdigit c = (48 \<le> (of_char c :: nat) \<and> (of_char c :: nat) \<le> 57)"

definition LONG_MAX :: int where
  "LONG_MAX = 9223372036854775807"

definition LONG_MIN :: int where
  "LONG_MIN = - 9223372036854775808"

definition slice :: "string \<Rightarrow> nat \<Rightarrow> nat \<Rightarrow> string" where
  "slice inp a b = take (b - a) (drop a inp)"

definition strtol :: "string \<Rightarrow> nat \<Rightarrow> int \<times> nat \<times> bool" where
  "strtol inp w =
     (let s = scan_while (\<lambda>i. isspace (peek inp i)) (length inp) w;
          neg = (peek inp s = CHR ''-'');
          d = (if peek inp s = CHR ''-'' \<or> peek inp s = CHR ''+'' then s + 1 else s);
          e = scan_while (\<lambda>i. isdigit (peek inp i)) (length inp) d;
          v = foldl (\<lambda>a c. 10 * a + (of_char c - 48)) 0 (slice inp d e);
          sv = (if neg then - v else v)
      in if e = d then (0, w, False)
         else if LONG_MAX < sv then (LONG_MAX, e, True)
         else if sv < LONG_MIN then (LONG_MIN, e, True)
         else (sv, e, False))"

text \<open>
  The copy loop of the \<^verbatim>\<open>string\<close>/\<^verbatim>\<open>word\<close> branch: \<^verbatim>\<open>beginning[inpos]\<close> is copied, after
  \<^verbatim>\<open>inpos\<close> has stepped over a backslash that stands before a double quote.
\<close>

function copy_escaped :: "string \<Rightarrow> nat \<Rightarrow> nat \<Rightarrow> nat \<Rightarrow> string" where
  "copy_escaped inp beginning n inpos =
     (if inpos < n then
        (let inpos' = (if peek inp (beginning + inpos) = CHR 0x5C \<and>
                          peek inp (beginning + inpos + 1) = CHR 0x22
                       then inpos + 1 else inpos)
         in peek inp (beginning + inpos') # copy_escaped inp beginning n (inpos' + 1))
      else [])"
  by pat_completeness auto
termination
  by (relation "measure (\<lambda>(inp, beginning, n, inpos). n - inpos)") auto

text \<open>
  What one descriptor does at the cursor. \<open>Match w' cap nl reinit\<close>: the token is handled,
  the cursor ends at \<open>w'\<close>, \<open>cap\<close> is what is pushed when the descriptor has an identifier,
  \<open>nl\<close> says that \<^verbatim>\<open>linecnt\<close> is incremented and \<open>reinit\<close> that \<^verbatim>\<open>cfg_criteria_init\<close> is called.
  \<open>NoMatch w'\<close>: the loop goes on to the next descriptor with the cursor at \<open>w'\<close> (the
  \<^verbatim>\<open>string\<close>/\<^verbatim>\<open>word\<close> branch has stepped over an opening quote by then).
\<close>

datatype capture = CapNone | CapString string | CapLong int

datatype lexed = NoMatch nat | Match nat capture bool bool

definition is_literal :: "cmdp_token \<Rightarrow> bool" where
  "is_literal tok = (case name tok of [] \<Rightarrow> False | c # cs \<Rightarrow> c = CHR 0x27)"

definition lex_string_or_word :: "cmdp_token \<Rightarrow> string \<Rightarrow> nat \<Rightarrow> lexed" where
  "lex_string_or_word tok inp w =
     (let quoted = (peek inp w = CHR 0x22);
          beginning = (if quoted then w + 1 else w);
          e = (if quoted then
                 scan_while (\<lambda>i. peek inp i \<noteq> CHR 0x00 \<and>
                                  (peek inp i \<noteq> CHR 0x22 \<or> peek inp (i - 1) = CHR 0x5C))
                   (length inp) (w + 1)
               else if hd (name tok) = CHR ''s'' then
                 scan_while (\<lambda>i. peek inp i \<noteq> CHR 0x00 \<and> peek inp i \<noteq> CHR 0x0D \<and>
                                  peek inp i \<noteq> CHR 0x0A)
                   (length inp) w
               else
                 scan_while (\<lambda>i. peek inp i \<noteq> CHR '' '' \<and> peek inp i \<noteq> CHR 0x09 \<and>
                                  peek inp i \<noteq> CHR '']'' \<and> peek inp i \<noteq> CHR '','' \<and>
                                  peek inp i \<noteq> CHR '';'' \<and> peek inp i \<noteq> CHR 0x0D \<and>
                                  peek inp i \<noteq> CHR 0x0A \<and> peek inp i \<noteq> CHR 0x00)
                   (length inp) w)
      in if e \<noteq> beginning then
           Match (if peek inp e = CHR 0x22 then e + 1 else e)
             (CapString (copy_escaped inp beginning (e - beginning) 0)) False False
         else NoMatch e)"

definition lex_token :: "cmdp_token \<Rightarrow> string \<Rightarrow> nat \<Rightarrow> lexed" where
  "lex_token tok inp w =
     (if is_literal tok then
        (if strncasecmp_eq inp w (tl (name tok)) (length (name tok) - 1) then
           Match (w + (length (name tok) - 1)) (CapString (tl (name tok))) False False
         else NoMatch w)
      else if name tok = ''number'' then
        (let (num, e, erange) = strtol inp w
         in if erange then NoMatch w
            else if e = w then NoMatch w
            else Match e (CapLong num) False False)
      else
        (case (if name tok = ''string'' \<or> name tok = ''word''
               then lex_string_or_word tok inp w else NoMatch w) of
           Match w' cap nl reinit \<Rightarrow> Match w' cap nl reinit
         | NoMatch w' \<Rightarrow>
             if name tok = ''line'' then
               Match (scan_while (\<lambda>i. peek inp i \<noteq> CHR 0x00 \<and> peek inp i \<noteq> CHR 0x0A \<and>
                                       peek inp i \<noteq> CHR 0x0D) (length inp) w' + 1)
                 CapNone True False
             else if name tok = ''end'' \<and>
                     (peek inp w' = CHR 0x00 \<or> peek inp w' = CHR 0x0A \<or> peek inp w' = CHR 0x0D) then
               Match (w' + 1) CapNone True True
             else NoMatch w'))"

subsection \<open>The driver\<close>

text \<open>The push that follows a match: only a descriptor with an identifier captures.\<close>

definition capture_value :: "string option \<Rightarrow> capture \<Rightarrow> stack_entry list \<Rightarrow> fault + stack_entry list" where
  "capture_value ident cap stk =
     (case ident of
        None \<Rightarrow> Inr stk
      | Some i \<Rightarrow>
          (case cap of
             CapNone \<Rightarrow> Inr stk
           | CapString s \<Rightarrow> push_string i s stk
           | CapLong n \<Rightarrow> push_long i n stk))"

text \<open>
  What follows a match: the push, \<^verbatim>\<open>next_state\<close>, and for \<^verbatim>\<open>end\<close> and \<^verbatim>\<open>line\<close> the
  bookkeeping. The cursor is stored before \<^verbatim>\<open>next_state\<close> runs (for \<^verbatim>\<open>line\<close> and \<^verbatim>\<open>end\<close>
  the source increments it after the call; \<^verbatim>\<open>next_state\<close> neither reads nor writes it).
\<close>

definition handle_match :: "'h handlers \<Rightarrow> cmdp_token \<Rightarrow> nat \<Rightarrow> capture \<Rightarrow> bool \<Rightarrow> bool \<Rightarrow> 'h parser \<Rightarrow> fault + 'h parser" where
  "handle_match hs t w' cap nl reinit st =
     bind_fault (capture_value (token_identifier t) cap (stack st))
       (\<lambda>stk. bind_fault (next_state hs t (st\<lparr>stack := stk, walk := w'\<rparr>))
          (\<lambda>st'. Inr (st'\<lparr>semantic := (if reinit then cfg_criteria_init hs (semantic st')
                                        else semantic st'),
                         linecnt := linecnt st' + (if nl then 1 else 0)\<rparr>)))"

text \<open>The loop over the descriptors of the current state: the first match wins.\<close>

datatype 'a tried = Handled 'a | Unhandled nat

fun try_tokens :: "'h handlers \<Rightarrow> string \<Rightarrow> cmdp_token list \<Rightarrow> nat \<Rightarrow> 'h parser \<Rightarrow> fault + 'h parser tried" where
  "try_tokens hs inp [] w st = Inr (Unhandled w)"
| "try_tokens hs inp (t # ts) w st =
     (case lex_token t inp w of
        NoMatch w' \<Rightarrow> try_tokens hs inp ts w' st
      | Match w' cap nl reinit \<Rightarrow> map_ok Handled (handle_match hs t w' cap nl reinit st))"

text \<open>The list of expected tokens in the error message (the loop that fills \<^verbatim>\<open>possible_tokens\<close>).\<close>

fun possible_tokens :: "cmdp_token list \<Rightarrow> string" where
  "possible_tokens [] = []"
| "possible_tokens (t # ts) =
     (if is_literal t then
        [CHR 0x27] @ tl (name t) @ [CHR 0x27] @ (if ts \<noteq> [] then '', '' else []) @ possible_tokens ts
      else if name t = ''error'' then possible_tokens ts
      else ''<'' @ name t @ ''>'' @ (if ts \<noteq> [] then '', '' else []) @ possible_tokens ts)"

definition errormessage :: "cmdp_token list \<Rightarrow> string" where
  "errormessage toks = ''Expected one of these tokens: '' @ possible_tokens toks"

text \<open>
  The search for the nearest error token: \<open>nearest_error tokens sl n\<close> visits
  \<^verbatim>\<open>statelist[n-1]\<close> down to \<^verbatim>\<open>statelist[0]\<close> and yields the first descriptor named
  \<^verbatim>\<open>error\<close> of the first state that has one.
\<close>

fun nearest_error :: "(cmdp_state \<Rightarrow> cmdp_token list) \<Rightarrow> cmdp_state list \<Rightarrow> nat \<Rightarrow> cmdp_token option" where
  "nearest_error tokens sl 0 = None"
| "nearest_error tokens sl (Suc i) =
     (case find (\<lambda>t. name t = ''error'') (tokens (sl ! i)) of
        Some t \<Rightarrow> Some t
      | None \<Rightarrow> nearest_error tokens sl i)"

text \<open>What follows the error report: the rest of the line is skipped, the stack cleared, the error token followed.\<close>

definition skip_line :: "string \<Rightarrow> nat \<Rightarrow> nat" where
  "skip_line inp w = scan_while (\<lambda>i. peek inp i \<noteq> CHR 0x0A) (length inp + 1) w"

definition recover :: "(cmdp_state \<Rightarrow> cmdp_token list) \<Rightarrow> 'h handlers \<Rightarrow> string \<Rightarrow> 'h parser \<Rightarrow> fault + 'h parser" where
  "recover tokens hs inp st =
     (let st1 = st\<lparr>walk := skip_line inp (walk st)\<rparr>;
          st2 = st1\<lparr>stack := clear_stack (stack st1)\<rparr>
      in case nearest_error tokens (statelist st2) (statelist_idx st2) of
           None \<Rightarrow> Inl AssertionFailed
         | Some tok \<Rightarrow> next_state hs tok st2)"

text \<open>One iteration of the main loop of \<^verbatim>\<open>parse_config\<close>.\<close>

definition parse_step :: "(cmdp_state \<Rightarrow> cmdp_token list) \<Rightarrow> 'h handlers \<Rightarrow> string \<Rightarrow> 'h parser \<Rightarrow> fault + 'h parser" where
  "parse_step tokens hs inp st =
     (case try_tokens hs inp (tokens (state st)) (skip_whitespace inp (walk st)) st of
        Inl f \<Rightarrow> Inl f
      | Inr (Handled st') \<Rightarrow> Inr st'
      | Inr (Unhandled w') \<Rightarrow>
          recover tokens hs inp
            (st\<lparr>walk := w',
                errormessages := errormessages st @ [errormessage (tokens (state st))]\<rparr>))"

text \<open>
  The main loop, \<^verbatim>\<open>while ((walk - input) <= len)\<close>, with fuel: \<open>None\<close> when the fuel runs
  out before the loop ends.
\<close>

fun parse_loop :: "nat \<Rightarrow> (cmdp_state \<Rightarrow> cmdp_token list) \<Rightarrow> 'h handlers \<Rightarrow> string \<Rightarrow> 'h parser \<Rightarrow> (fault + 'h parser) option" where
  "parse_loop 0 tokens hs inp st = (if walk st \<le> length inp then None else Some (Inr st))"
| "parse_loop (Suc n) tokens hs inp st =
     (if walk st \<le> length inp then
        (case parse_step tokens hs inp st of
           Inl f \<Rightarrow> Some (Inl f)
         | Inr st' \<Rightarrow> parse_loop n tokens hs inp st')
      else Some (Inr st))"

text \<open>
  \<^verbatim>\<open>parse_config\<close>. The arrays \<^verbatim>\<open>stack\<close> and \<^verbatim>\<open>statelist\<close> are static and \<^verbatim>\<open>parse_config\<close>
  does not reset them: \<open>stk\<close> and \<open>sl\<close> are their contents at the call.
\<close>

definition initial_parser :: "'h handlers \<Rightarrow> stack_entry list \<Rightarrow> cmdp_state list \<Rightarrow> 'h \<Rightarrow> 'h parser" where
  "initial_parser hs stk sl h =
     \<lparr>state = INITIAL, stack = stk, statelist = sl, statelist_idx = 1, walk = 0, linecnt = 1,
      errormessages = [], semantic = cfg_criteria_init hs h\<rparr>"

definition parse_config :: "nat \<Rightarrow> (cmdp_state \<Rightarrow> cmdp_token list) \<Rightarrow> 'h handlers \<Rightarrow> string \<Rightarrow> stack_entry list \<Rightarrow> cmdp_state list \<Rightarrow> 'h \<Rightarrow> (fault + 'h parser) option" where
  "parse_config fuel tokens hs inp stk sl h = parse_loop fuel tokens hs inp (initial_parser hs stk sl h)"

text \<open>\<^verbatim>\<open>static cmdp_state statelist[10] = { INITIAL }\<close>; \<open>z\<close> is the member with the value 0.\<close>

definition static_statelist :: "cmdp_state \<Rightarrow> cmdp_state list" where
  "static_statelist z = INITIAL # replicate 9 z"

text \<open>The states a parse passes through, one per iteration of the main loop.\<close>

inductive reachable :: "(cmdp_state \<Rightarrow> cmdp_token list) \<Rightarrow> 'h handlers \<Rightarrow> string \<Rightarrow> 'h parser \<Rightarrow> 'h parser \<Rightarrow> bool"
  for tokens hs inp st0 where
  start: "reachable tokens hs inp st0 st0"
| step: "reachable tokens hs inp st0 st \<Longrightarrow> walk st \<le> length inp \<Longrightarrow>
         parse_step tokens hs inp st = Inr st' \<Longrightarrow> reachable tokens hs inp st0 st'"

subsection \<open>The stack as a list\<close>

text \<open>
  The loops over the array, written as recursion over the list of slots. They are shown
  below to agree with the loops above on an array of 10 slots, and the properties of the
  stack are proved through them.
\<close>

definition new_string_entry :: "string \<Rightarrow> string \<Rightarrow> stack_entry" where
  "new_string_entry i s = \<lparr>entry_identifier = Some i, entry_type = STACK_STR, val = VStr s\<rparr>"

definition new_long_entry :: "string \<Rightarrow> int \<Rightarrow> stack_entry" where
  "new_long_entry i n = \<lparr>entry_identifier = Some i, entry_type = STACK_LONG, val = VNum n\<rparr>"

fun push_string_list :: "string \<Rightarrow> string \<Rightarrow> stack_entry list \<Rightarrow> fault + stack_entry list" where
  "push_string_list i s [] = Inl StackFull"
| "push_string_list i s (e # es) =
     (case entry_identifier e of
        None \<Rightarrow> Inr (new_string_entry i s # es)
      | Some j \<Rightarrow>
          if j \<noteq> i then map_ok (Cons e) (push_string_list i s es)
          else (case val e of
                  VStr prev \<Rightarrow> Inr (e\<lparr>val := VStr (prev @ '','' @ s)\<rparr> # es)
                | VNum n \<Rightarrow> Inl UnionMisread))"

fun push_long_list :: "string \<Rightarrow> int \<Rightarrow> stack_entry list \<Rightarrow> fault + stack_entry list" where
  "push_long_list i n [] = Inl StackFull"
| "push_long_list i n (e # es) =
     (if entry_identifier e \<noteq> None then map_ok (Cons e) (push_long_list i n es)
      else Inr (new_long_entry i n # es))"

fun get_string_list :: "string \<Rightarrow> stack_entry list \<Rightarrow> fault + string option" where
  "get_string_list i [] = Inr None"
| "get_string_list i (e # es) =
     (case entry_identifier e of
        None \<Rightarrow> Inr None
      | Some j \<Rightarrow>
          if i = j then
            (case val e of VStr s \<Rightarrow> Inr (Some s) | VNum n \<Rightarrow> if n = 0 then Inr None else Inl UnionMisread)
          else get_string_list i es)"

fun get_long_list :: "string \<Rightarrow> stack_entry list \<Rightarrow> fault + int" where
  "get_long_list i [] = Inr 0"
| "get_long_list i (e # es) =
     (case entry_identifier e of
        None \<Rightarrow> Inr 0
      | Some j \<Rightarrow>
          if i = j then (case val e of VNum n \<Rightarrow> Inr n | VStr s \<Rightarrow> Inl UnionMisread)
          else get_long_list i es)"

text \<open>
  \<open>used\<close> is the index of the first free slot, \<open>contiguous\<close> says that no slot after
  it is occupied, \<open>holders i\<close> counts the slots whose identifier is \<open>i\<close> and
  \<open>free_slots\<close> those without an identifier.
\<close>

definition used :: "stack_entry list \<Rightarrow> nat" where
  "used stk = length (takeWhile (\<lambda>e. entry_identifier e \<noteq> None) stk)"

definition contiguous :: "stack_entry list \<Rightarrow> bool" where
  "contiguous stk = list_all (\<lambda>e. entry_identifier e = None) (dropWhile (\<lambda>e. entry_identifier e \<noteq> None) stk)"

definition holders :: "string \<Rightarrow> stack_entry list \<Rightarrow> nat" where
  "holders i stk = length (filter (\<lambda>e. entry_identifier e = Some i) stk)"

definition free_slots :: "stack_entry list \<Rightarrow> nat" where
  "free_slots stk = length (filter (\<lambda>e. entry_identifier e = None) stk)"

definition first_holder :: "string \<Rightarrow> stack_entry list \<Rightarrow> stack_entry option" where
  "first_holder i stk = find (\<lambda>e. entry_identifier e = Some i) stk"

text \<open>A sequence of \<^verbatim>\<open>push_long\<close> calls under one identifier, with no \<^verbatim>\<open>clear_stack\<close> between them.\<close>

fun push_longs :: "string \<Rightarrow> int list \<Rightarrow> stack_entry list \<Rightarrow> fault + stack_entry list" where
  "push_longs i [] stk = Inr stk"
| "push_longs i (v # vs) stk = bind_fault (push_long i v stk) (push_longs i vs)"

text \<open>\<open>in_prefix i\<close>: a slot before the first free one holds the identifier \<open>i\<close>.\<close>

definition in_prefix :: "string \<Rightarrow> stack_entry list \<Rightarrow> bool" where
  "in_prefix i stk = (Some i \<in> entry_identifier ` set (takeWhile (\<lambda>e. entry_identifier e \<noteq> None) stk))"

fun push_longs_list :: "string \<Rightarrow> int list \<Rightarrow> stack_entry list \<Rightarrow> fault + stack_entry list" where
  "push_longs_list i [] stk = Inr stk"
| "push_longs_list i (v # vs) stk = bind_fault (push_long_list i v stk) (push_longs_list i vs)"

text \<open>What the lookups return for the slot they stop at (\<open>None\<close>: no such slot).\<close>

definition read_num :: "stack_entry option \<Rightarrow> fault + int" where
  "read_num r = (case r of None \<Rightarrow> Inr 0
                 | Some e \<Rightarrow> (case val e of VNum n \<Rightarrow> Inr n | VStr s \<Rightarrow> Inl UnionMisread))"

definition read_str :: "stack_entry option \<Rightarrow> fault + string option" where
  "read_str r = (case r of None \<Rightarrow> Inr None
                 | Some e \<Rightarrow> (case val e of VStr s \<Rightarrow> Inr (Some s)
                                | VNum n \<Rightarrow> if n = 0 then Inr None else Inl UnionMisread))"

subsection \<open>Notions used in the statements\<close>

text \<open>\<open>all_unused\<close>: every slot has a NULL identifier and the zeroed value.\<close>

definition all_unused :: "stack_entry list \<Rightarrow> bool" where
  "all_unused stk = list_all (\<lambda>e. entry_identifier e = None \<and> val e = VNum 0) stk"

text \<open>
  The state trail is the part of \<^verbatim>\<open>statelist\<close> below \<^verbatim>\<open>statelist_idx\<close>; \<open>committed_state\<close>
  is the state a transition assigns to \<^verbatim>\<open>state\<close>: the handler's answer on \<^verbatim>\<open>__CALL\<close>, else
  the descriptor's \<^verbatim>\<open>next_state\<close>.
\<close>

definition trail :: "'h parser \<Rightarrow> cmdp_state list" where
  "trail st = take (statelist_idx st) (statelist st)"

definition committed_state :: "'h handlers \<Rightarrow> cmdp_token \<Rightarrow> 'h parser \<Rightarrow> cmdp_state" where
  "committed_state hs tok st =
     (if token_next_state tok = CALL
      then fst (GENERATED_call hs (call_identifier tok) (stack st) (semantic st))
      else token_next_state tok)"

text \<open>The invariants of the state list and of the stack during a parse.\<close>

definition trail_ok :: "'h parser \<Rightarrow> bool" where
  "trail_ok st = (1 \<le> statelist_idx st \<and> statelist_idx st \<le> 10 \<and> length (statelist st) = 10 \<and>
                  statelist st ! 0 = INITIAL \<and> distinct (trail st))"

definition stack_ok :: "'h parser \<Rightarrow> bool" where
  "stack_ok st = (length (stack st) = 10 \<and> contiguous (stack st))"

text \<open>
  The value of a quoted token as the specification words it: a backslash followed by a
  double quote yields the double quote, every other byte is kept. \<open>has_escaped_quote\<close>
  says that the sequence backslash, double quote occurs.
\<close>

fun unescape :: "string \<Rightarrow> string" where
  "unescape [] = []"
| "unescape [c] = [c]"
| "unescape (c # d # cs) =
     (if c = CHR 0x5C \<and> d = CHR 0x22 then d # unescape cs else c # unescape (d # cs))"

fun has_escaped_quote :: "string \<Rightarrow> bool" where
  "has_escaped_quote [] = False"
| "has_escaped_quote [c] = False"
| "has_escaped_quote (c # d # cs) = ((c = CHR 0x5C \<and> d = CHR 0x22) \<or> has_escaped_quote (d # cs))"

text \<open>
  Where the content of a quoted token that opens at \<open>w\<close> ends: the loop of the
  \<^verbatim>\<open>string\<close>/\<^verbatim>\<open>word\<close> branch, started behind the opening quote.
\<close>

definition quoted_end :: "string \<Rightarrow> nat \<Rightarrow> nat" where
  "quoted_end inp w =
     scan_while (\<lambda>i. peek inp i \<noteq> CHR 0x00 \<and> (peek inp i \<noteq> CHR 0x22 \<or> peek inp (i - 1) = CHR 0x5C))
       (length inp) (w + 1)"

subsection \<open>Example tables\<close>

text \<open>
  Small grammars on which the statements are evaluated. The handlers of
  \<open>recording_handlers\<close> keep the list of their calls, each with the stack it saw, and
  answer \<^verbatim>\<open>INITIAL\<close>.
\<close>

definition mk_token :: "string \<Rightarrow> string option \<Rightarrow> cmdp_state \<Rightarrow> nat \<Rightarrow> cmdp_token" where
  "mk_token n i s c = \<lparr>name = n, token_identifier = i, token_next_state = s, call_identifier = c\<rparr>"

definition recording_handlers :: "(nat \<times> stack_entry list) list handlers" where
  "recording_handlers =
     \<lparr>GENERATED_call = (\<lambda>c stk h. (INITIAL, h @ [(c, stk)])), cfg_criteria_init = (\<lambda>h. h)\<rparr>"

definition workspace_tokens :: "cmdp_state \<Rightarrow> cmdp_token list" where
  "workspace_tokens s =
     (if s = INITIAL then
        [mk_token (CHR 0x27 # ''workspace'') None (State 1) 0,
         mk_token ''end'' None INITIAL 0,
         mk_token ''error'' None INITIAL 0]
      else if s = State 1 then [mk_token ''number'' (Some ''num'') (State 2) 0]
      else if s = State 2 then [mk_token ''end'' None CALL 0]
      else [])"

definition chain_tokens :: "cmdp_state \<Rightarrow> cmdp_token list" where
  "chain_tokens s =
     (case s of
        INITIAL \<Rightarrow> [mk_token [CHR 0x27, CHR ''a''] None (State 1) 0, mk_token ''error'' None INITIAL 0]
      | State n \<Rightarrow> [mk_token [CHR 0x27, CHR ''a''] None (State (Suc n)) 0]
      | CALL \<Rightarrow> [])"

definition first_parser :: "(nat \<times> stack_entry list) list parser" where
  "first_parser = initial_parser recording_handlers static_stack (static_statelist INITIAL) []"

text \<open>A state with the descriptors \<^verbatim>\<open>'bindsym\<close>, \<^verbatim>\<open>'bindcode\<close>, \<^verbatim>\<open>word\<close>, \<^verbatim>\<open>error\<close>, in this order.\<close>

definition bind_tokens :: "cmdp_state \<Rightarrow> cmdp_token list" where
  "bind_tokens s =
     (if s = INITIAL then
        [mk_token (CHR 0x27 # ''bindsym'') None (State 1) 0,
         mk_token (CHR 0x27 # ''bindcode'') None (State 1) 0,
         mk_token ''word'' None (State 2) 0,
         mk_token ''error'' None INITIAL 0]
      else [])"

text \<open>The line \<^verbatim>\<open>exec "echo \"hi\""\<close>, with its line feed.\<close>

definition exec_line :: string where
  "exec_line = ''exec '' @ [CHR 0x22] @ ''echo '' @ [CHR 0x5C, CHR 0x22] @ ''hi'' @ [CHR 0x5C, CHR 0x22] @
               [CHR 0x22, CHR 0x0A]"

subsection \<open>Notions about the grammar tables and the main loop\<close>

text \<open>
  \<open>has_error\<close>: the table has a descriptor named \<^verbatim>\<open>error\<close>; \<open>has_end\<close>: it has one named
  \<^verbatim>\<open>end\<close> or \<^verbatim>\<open>line\<close> (either matches at a line feed).
\<close>

definition has_error :: "cmdp_token list \<Rightarrow> bool" where
  "has_error toks = (find (\<lambda>t. name t = ''error'') toks \<noteq> None)"

definition has_end :: "cmdp_token list \<Rightarrow> bool" where
  "has_end toks = list_ex (\<lambda>t. name t = ''end'' \<or> name t = ''line'') toks"

text \<open>
  The recovery token as the specification words it: the trail is visited from its top
  toward the bottom, the first state whose table has an \<^verbatim>\<open>error\<close> descriptor is taken, and
  of that table the first such descriptor.
\<close>

definition spec_error_token :: "(cmdp_state \<Rightarrow> cmdp_token list) \<Rightarrow> cmdp_state list \<Rightarrow> cmdp_token option" where
  "spec_error_token tokens tr =
     (case find (\<lambda>S. has_error (tokens S)) (rev tr) of
        None \<Rightarrow> None
      | Some S \<Rightarrow> find (\<lambda>t. name t = ''error'') (tokens S))"

text \<open>
  What the termination of the main loop needs of the generated tables: no literal has an
  empty spelling and no name contains a NUL (names are C strings); every \<^verbatim>\<open>error\<close>
  descriptor leads, without a handler call, to a state that accepts the end of a line;
  and \<^verbatim>\<open>INITIAL\<close> has an \<^verbatim>\<open>error\<close> descriptor.
\<close>

definition grammar_ok :: "(cmdp_state \<Rightarrow> cmdp_token list) \<Rightarrow> bool" where
  "grammar_ok tokens =
     ((\<forall>S. \<forall>t\<in>set (tokens S). name t \<noteq> [CHR 0x27] \<and> CHR 0x00 \<notin> set (name t)) \<and>
      (\<forall>S. \<forall>t\<in>set (tokens S). name t = ''error'' \<longrightarrow>
          token_next_state t \<noteq> CALL \<and> has_end (tokens (token_next_state t))) \<and>
      has_error (tokens INITIAL))"

text \<open>
  A run on the input \<^verbatim>\<open>workspace x\<close>, line feed, \<^verbatim>\<open>workspace 7\<close> with the tables
  \<open>workspace_tokens\<close>: the parser after the first literal, after the recovery from the
  error at \<^verbatim>\<open>x\<close>, and after the number of the second line.
\<close>

definition workspace_input :: string where
  "workspace_input = ''workspace x'' @ [CHR 0x0A] @ ''workspace 7''"

definition after_workspace :: "(nat \<times> stack_entry list) list parser" where
  "after_workspace =
     first_parser\<lparr>state := State 1, statelist := (static_statelist INITIAL)[1 := State 1],
                  statelist_idx := 2, walk := 9\<rparr>"

definition after_error :: "(nat \<times> stack_entry list) list parser" where
  "after_error =
     first_parser\<lparr>statelist := (static_statelist INITIAL)[1 := State 1], walk := 11,
                  errormessages := [''Expected one of these tokens: <number>'']\<rparr>"

definition after_number :: "(nat \<times> stack_entry list) list parser" where
  "after_number =
     first_parser\<lparr>state := State 2, stack := static_stack[0 := new_long_entry ''num'' 7],
                  statelist := (static_statelist INITIAL)[1 := State 1, 2 := State 2],
                  statelist_idx := 3, walk := 23, linecnt := 2,
                  errormessages := [''Expected one of these tokens: <number>'']\<rparr>"

text \<open>The first \<open>n\<close> iterations of the main loop.\<close>

fun parse_steps :: "nat \<Rightarrow> (cmdp_state \<Rightarrow> cmdp_token list) \<Rightarrow> 'h handlers \<Rightarrow> string \<Rightarrow> 'h parser \<Rightarrow> fault + 'h parser" where
  "parse_steps 0 tokens hs inp st = Inr st"
| "parse_steps (Suc n) tokens hs inp st =
     (if walk st \<le> length inp
      then bind_fault (parse_step tokens hs inp st) (parse_steps n tokens hs inp)
      else Inr st)"


text \<open>
  Tables for two scenarios: \<^verbatim>\<open>tags\<close> followed by two words captured under the same
  identifier, and \<^verbatim>\<open>exec\<close> followed by a string. \<open>seen i\<close> lists, for each handler call,
  what \<^verbatim>\<open>get_string\<close> returned to it for \<open>i\<close>.
\<close>

definition tags_tokens :: "cmdp_state \<Rightarrow> cmdp_token list" where
  "tags_tokens s =
     (if s = INITIAL then
        [mk_token ''end'' None INITIAL 0,
         mk_token ''error'' None INITIAL 0,
         mk_token (CHR 0x27 # ''tags'') None (State 1) 0,
         mk_token (CHR 0x27 # ''exec'') None (State 4) 0]
      else if s = State 1 then [mk_token ''word'' (Some ''t'') (State 2) 0]
      else if s = State 2 then [mk_token ''word'' (Some ''t'') (State 3) 0]
      else if s = State 3 then [mk_token ''end'' None CALL 0]
      else if s = State 4 then [mk_token ''string'' (Some ''cmd'') (State 5) 0]
      else if s = State 5 then [mk_token ''end'' None CALL 1]
      else [])"

definition seen :: "string \<Rightarrow> (nat \<times> stack_entry list) list parser \<Rightarrow> (nat \<times> (fault + string option)) list" where
  "seen i st = map (\<lambda>(c, stk). (c, get_string i stk)) (semantic st)"

subsection \<open>Tables that fit the two arrays\<close>












text \<open>
  \<open>counting_tokens\<close>: \<^verbatim>\<open>a\<close> followed by numbers, each captured under \<^verbatim>\<open>n\<close>, up to the end
  of the line. \<open>eleven_numbers\<close>: a line with eleven numbers and an \<^verbatim>\<open>x\<close> behind them, and a
  second line.
\<close>

definition counting_tokens :: "cmdp_state \<Rightarrow> cmdp_token list" where
  "counting_tokens s =
     (if s = INITIAL then
        [mk_token [CHR 0x27, CHR ''a''] None (State 1) 0,
         mk_token ''end'' None INITIAL 0,
         mk_token ''error'' None INITIAL 0]
      else if s = State 1 then
        [mk_token ''number'' (Some ''n'') (State 1) 0,
         mk_token ''end'' None CALL 0]
      else [])"


text \<open>
  \<open>stuck_tokens\<close>: the \<^verbatim>\<open>error\<close> descriptor of \<^verbatim>\<open>INITIAL\<close> leads to a state with neither
  an \<^verbatim>\<open>end\<close> nor a \<^verbatim>\<open>line\<close> descriptor. \<open>stuck_parser ms\<close> is the parser in that state
  at position 0, with the error messages \<open>ms\<close>.
\<close>

definition stuck_tokens :: "cmdp_state \<Rightarrow> cmdp_token list" where
  "stuck_tokens s =
     (if s = INITIAL then [mk_token ''error'' None (State 1) 0]
      else if s = State 1 then [mk_token [CHR 0x27, CHR ''x''] None (State 1) 0]
      else [])"

definition stuck_parser :: "string list \<Rightarrow> (nat \<times> stack_entry list) list parser" where
  "stuck_parser ms =
     first_parser\<lparr>state := State 1, statelist := (static_statelist INITIAL)[1 := State 1],
                  statelist_idx := 2, errormessages := ms\<rparr>"

text \<open>
  \<open>mixed_tokens\<close>: a number and then a word, both captured under the identifier \<^verbatim>\<open>x\<close>.
\<close>

definition mixed_tokens :: "cmdp_state \<Rightarrow> cmdp_token list" where
  "mixed_tokens s =
     (if s = INITIAL then
        [mk_token ''number'' (Some ''x'') (State 1) 0,
         mk_token ''end'' None INITIAL 0,
         mk_token ''error'' None INITIAL 0]
      else if s = State 1 then [mk_token ''word'' (Some ''x'') (State 2) 0]
      else if s = State 2 then [mk_token ''end'' None CALL 0]
      else [])"

section \<open>Properties\<close>

subsection \<open>The array loops and the list recursions agree\<close>

declare push_string_from.simps [simp del] push_long_from.simps [simp del]
  get_string_from.simps [simp del] get_long_from.simps [simp del]
  statelist_search.simps [simp del] scan_while.simps [simp del] copy_escaped.simps [simp del]

lemma drop_nth_step: "c < length xs \<Longrightarrow> drop c xs = xs ! c # drop (Suc c) xs"
  by (simp add: Cons_nth_drop_Suc)

lemma update_as_append: "c < length xs \<Longrightarrow> xs[c := x] = take c xs @ x # drop (Suc c) xs"
  by (simp add: upd_conv_take_nth_drop)

lemma push_long_from_list:
  "c \<le> 10 \<Longrightarrow> length stk = 10 \<Longrightarrow>
   push_long_from c i n stk = map_ok ((@) (take c stk)) (push_long_list i n (drop c stk))"
proof (induction c i n stk rule: push_long_from.induct)
  case (1 c ident num stk)
  show ?case
  proof (cases "c < 10")
    case False
    with 1 show ?thesis by (subst push_long_from.simps) simp
  next
    case True
    with 1 have lt: "c < length stk" by simp
    show ?thesis
    proof (cases "entry_identifier (stk ! c) = None")
      case True
      then show ?thesis using lt \<open>c < 10\<close>
        by (subst push_long_from.simps)
           (simp add: drop_nth_step update_as_append new_long_entry_def)
    next
      case False
      then have "push_long_from c ident num stk = push_long_from (c + 1) ident num stk"
        using \<open>c < 10\<close> by (subst push_long_from.simps) simp
      also have "\<dots> = map_ok ((@) (take (c + 1) stk)) (push_long_list ident num (drop (c + 1) stk))"
        using 1 \<open>c < 10\<close> False by simp
      also have "\<dots> = map_ok ((@) (take c stk)) (push_long_list ident num (drop c stk))"
        using lt False
        by (cases "push_long_list ident num (drop (Suc c) stk)")
           (simp_all add: drop_nth_step[of c] take_Suc_conv_app_nth)
      finally show ?thesis .
    qed
  qed
qed

lemma push_string_from_list:
  "c \<le> 10 \<Longrightarrow> length stk = 10 \<Longrightarrow>
   push_string_from c i s stk = map_ok ((@) (take c stk)) (push_string_list i s (drop c stk))"
proof (induction c i s stk rule: push_string_from.induct)
  case (1 c ident str stk)
  show ?case
  proof (cases "c < 10")
    case False
    with 1 show ?thesis by (subst push_string_from.simps) simp
  next
    case True
    with 1 have lt: "c < length stk" by simp
    show ?thesis
    proof (cases "entry_identifier (stk ! c)")
      case None
      then show ?thesis using lt \<open>c < 10\<close>
        by (subst push_string_from.simps)
           (simp add: drop_nth_step update_as_append new_string_entry_def)
    next
      case (Some j)
      show ?thesis
      proof (cases "j = ident")
        case True
        then show ?thesis using lt \<open>c < 10\<close> Some
          by (subst push_string_from.simps)
             (simp add: drop_nth_step[of c] update_as_append split: stack_val.splits)
      next
        case False
        then have "push_string_from c ident str stk = push_string_from (c + 1) ident str stk"
          using \<open>c < 10\<close> Some by (subst push_string_from.simps) simp
        also have "\<dots> = map_ok ((@) (take (c + 1) stk)) (push_string_list ident str (drop (c + 1) stk))"
          using 1 \<open>c < 10\<close> False Some by simp
        also have "\<dots> = map_ok ((@) (take c stk)) (push_string_list ident str (drop c stk))"
          using lt False Some
          by (cases "push_string_list ident str (drop (Suc c) stk)")
             (simp_all add: drop_nth_step[of c] take_Suc_conv_app_nth)
        finally show ?thesis .
      qed
    qed
  qed
qed

lemma get_string_from_list:
  "c \<le> 10 \<Longrightarrow> length stk = 10 \<Longrightarrow> get_string_from c i stk = get_string_list i (drop c stk)"
proof (induction c i stk rule: get_string_from.induct)
  case (1 c ident stk)
  show ?case
  proof (cases "c < 10")
    case False
    with 1 show ?thesis by (subst get_string_from.simps) simp
  next
    case True
    with 1 have lt: "c < length stk" by simp
    show ?thesis using 1 True lt
      by (subst get_string_from.simps)
         (auto simp add: drop_nth_step[of c] split: option.splits stack_val.splits)
  qed
qed

lemma get_long_from_list:
  "c \<le> 10 \<Longrightarrow> length stk = 10 \<Longrightarrow> get_long_from c i stk = get_long_list i (drop c stk)"
proof (induction c i stk rule: get_long_from.induct)
  case (1 c ident stk)
  show ?case
  proof (cases "c < 10")
    case False
    with 1 show ?thesis by (subst get_long_from.simps) simp
  next
    case True
    with 1 have lt: "c < length stk" by simp
    show ?thesis using 1 True lt
      by (subst get_long_from.simps)
         (auto simp add: drop_nth_step[of c] split: option.splits stack_val.splits)
  qed
qed

lemma bind_fault_simps [simp]:
  "bind_fault (Inl e) f = Inl e" "bind_fault (Inr x) f = f x"
  by (simp_all add: bind_fault_def)

lemma push_string_is_list: "length stk = 10 \<Longrightarrow> push_string i s stk = push_string_list i s stk"
  using push_string_from_list[of 0 stk i s] by (cases "push_string_list i s stk") (simp_all add: push_string_def)

lemma push_long_is_list: "length stk = 10 \<Longrightarrow> push_long i n stk = push_long_list i n stk"
  using push_long_from_list[of 0 stk i n] by (cases "push_long_list i n stk") (simp_all add: push_long_def)

lemma get_string_is_list: "length stk = 10 \<Longrightarrow> get_string i stk = get_string_list i stk"
  using get_string_from_list[of 0 stk i] by (simp add: get_string_def)

lemma get_long_is_list: "length stk = 10 \<Longrightarrow> get_long i stk = get_long_list i stk"
  using get_long_from_list[of 0 stk i] by (simp add: get_long_def)

lemma push_string_list_length: "push_string_list i s stk = Inr stk' \<Longrightarrow> length stk' = length stk"
proof (induction stk arbitrary: stk')
  case Nil
  then show ?case by simp
next
  case (Cons e es)
  then show ?case
    by (cases "push_string_list i s es") (auto split: option.splits if_splits stack_val.splits)
qed

lemma push_long_list_length: "push_long_list i n stk = Inr stk' \<Longrightarrow> length stk' = length stk"
proof (induction stk arbitrary: stk')
  case Nil
  then show ?case by simp
next
  case (Cons e es)
  then show ?case
    by (cases "push_long_list i n es") (auto split: if_splits)
qed

text \<open>Pushing a string under an identifier that no slot holds.\<close>

lemma push_string_list_fresh:
  "holders i stk = 0 \<Longrightarrow> 0 < free_slots stk \<Longrightarrow>
   used stk < length stk \<and> entry_identifier (stk ! used stk) = None \<and>
   push_string_list i s stk = Inr (stk[used stk := new_string_entry i s])"
proof (induction stk)
  case Nil
  then show ?case by (simp add: free_slots_def)
next
  case (Cons e es)
  show ?case
  proof (cases "entry_identifier e")
    case None
    then show ?thesis by (simp add: used_def)
  next
    case (Some j)
    with Cons.prems have "j \<noteq> i" "holders i es = 0" "0 < free_slots es"
      by (auto simp: holders_def free_slots_def split: if_splits)
    with Cons.IH Some show ?thesis by (simp add: used_def)
  qed
qed

lemma get_string_list_fresh:
  "holders i stk = 0 \<Longrightarrow> used stk < length stk \<Longrightarrow>
   get_string_list i (stk[used stk := new_string_entry i s]) = Inr (Some s)"
proof (induction stk)
  case Nil
  then show ?case by simp
next
  case (Cons e es)
  show ?case
  proof (cases "entry_identifier e")
    case None
    then show ?thesis by (simp add: used_def new_string_entry_def)
  next
    case (Some j)
    with Cons.prems have "j \<noteq> i" "holders i es = 0" "used es < length es"
      by (auto simp: holders_def used_def split: if_splits)
    with Cons.IH Some show ?thesis by (simp add: used_def)
  qed
qed

text \<open>Pushing a string under an identifier whose first slot, before any free slot, holds a string.\<close>

lemma push_string_list_append:
  "c < used stk \<Longrightarrow> entry_identifier (stk ! c) = Some i \<Longrightarrow>
   \<forall>j<c. entry_identifier (stk ! j) \<noteq> Some i \<Longrightarrow> val (stk ! c) = VStr old \<Longrightarrow>
   push_string_list i s stk = Inr (stk[c := (stk ! c)\<lparr>val := VStr (old @ '','' @ s)\<rparr>])"
proof (induction stk arbitrary: c)
  case Nil
  then show ?case by (simp add: used_def)
next
  case (Cons e es)
  show ?case
  proof (cases c)
    case 0
    with Cons.prems show ?thesis by simp
  next
    case (Suc d)
    with Cons.prems obtain j where j: "entry_identifier e = Some j" "j \<noteq> i"
      by (cases "entry_identifier e") (auto simp: used_def)
    have "d < used es" using Cons.prems Suc j by (simp add: used_def)
    moreover have "entry_identifier (es ! d) = Some i"
      using Cons.prems Suc by simp
    moreover have "\<forall>k<d. entry_identifier (es ! k) \<noteq> Some i"
      using Cons.prems(3) Suc by auto
    moreover have "val (es ! d) = VStr old"
      using Cons.prems Suc by simp
    ultimately have "push_string_list i s es = Inr (es[d := (es ! d)\<lparr>val := VStr (old @ '','' @ s)\<rparr>])"
      by (rule Cons.IH)
    then show ?thesis using j Suc by simp
  qed
qed

lemma get_string_list_at:
  "c < used stk \<Longrightarrow> entry_identifier (stk ! c) = Some i \<Longrightarrow>
   \<forall>j<c. entry_identifier (stk ! j) \<noteq> Some i \<Longrightarrow>
   get_string_list i (stk[c := (stk ! c)\<lparr>val := VStr x\<rparr>]) = Inr (Some x)"
proof (induction stk arbitrary: c)
  case Nil
  then show ?case by (simp add: used_def)
next
  case (Cons e es)
  show ?case
  proof (cases c)
    case 0
    with Cons.prems show ?thesis by simp
  next
    case (Suc d)
    with Cons.prems obtain j where j: "entry_identifier e = Some j" "j \<noteq> i"
      by (cases "entry_identifier e") (auto simp: used_def)
    have "d < used es" using Cons.prems Suc j by (simp add: used_def)
    moreover have "entry_identifier (es ! d) = Some i"
      using Cons.prems Suc by simp
    moreover have "\<forall>k<d. entry_identifier (es ! k) \<noteq> Some i"
      using Cons.prems(3) Suc by auto
    ultimately have "get_string_list i (es[d := (es ! d)\<lparr>val := VStr x\<rparr>]) = Inr (Some x)"
      by (rule Cons.IH)
    then show ?thesis using j Suc by simp
  qed
qed

lemma push_string_list_twice:
  "holders i stk = 0 \<Longrightarrow> 0 < free_slots stk \<Longrightarrow>
   bind_fault (bind_fault (push_string_list i s1 stk) (push_string_list i s2)) (get_string_list i)
     = Inr (Some (s1 @ '','' @ s2))"
proof (induction stk)
  case Nil
  then show ?case by (simp add: free_slots_def)
next
  case (Cons e es)
  show ?case
  proof (cases "entry_identifier e")
    case None
    then show ?thesis by (simp add: new_string_entry_def)
  next
    case (Some j)
    with Cons.prems have j: "j \<noteq> i" "holders i es = 0" "0 < free_slots es"
      by (auto simp: holders_def free_slots_def split: if_splits)
    from Cons.IH[OF j(2,3)] show ?thesis using Some j(1)
      by (cases "push_string_list i s1 es"; simp)
         (rename_tac r, case_tac "push_string_list i s2 r"; simp)
  qed
qed

lemma contiguous_used: "contiguous stk \<Longrightarrow> c < length stk \<Longrightarrow> entry_identifier (stk ! c) \<noteq> None \<Longrightarrow> c < used stk"
proof (induction stk arbitrary: c)
  case Nil
  then show ?case by simp
next
  case (Cons e es)
  show ?case
  proof (cases "entry_identifier e")
    case None
    with Cons.prems have "list_all (\<lambda>e. entry_identifier e = None) (e # es)"
      by (simp add: contiguous_def)
    with Cons.prems show ?thesis by (auto simp: list_all_length)
  next
    case (Some j)
    with Cons.prems have "contiguous es" by (simp add: contiguous_def)
    with Cons Some show ?thesis by (cases c) (auto simp: used_def)
  qed
qed

text \<open>
  Claim C5. On the 10-slot stack: when no slot holds \<open>i\<close> and a slot is free,
  \<^verbatim>\<open>push_string\<close> stores the string in the first free slot, \<^verbatim>\<open>get_string\<close> then returns it,
  and after a second push under \<open>i\<close> it returns the first string, a comma, and the
  second. When the first slot holding \<open>i\<close> holds the string \<open>old\<close>, the push
  replaces the value of that slot by \<open>old\<close>, a comma, and the new string, which is what
  \<^verbatim>\<open>get_string\<close> returns afterwards.
\<close>

theorem push_string_accumulates:
  "length stk = 10 \<Longrightarrow>
   (holders i stk = 0 \<and> 0 < free_slots stk \<longrightarrow>
      used stk < 10 \<and> entry_identifier (stk ! used stk) = None \<and>
      push_string i s1 stk = Inr (stk[used stk := new_string_entry i s1]) \<and>
      get_string i (stk[used stk := new_string_entry i s1]) = Inr (Some s1) \<and>
      bind_fault (bind_fault (push_string i s1 stk) (push_string i s2)) (get_string i)
        = Inr (Some (s1 @ '','' @ s2))) \<and>
   (contiguous stk \<and> c < 10 \<and> entry_identifier (stk ! c) = Some i \<and>
        (\<forall>j<c. entry_identifier (stk ! j) \<noteq> Some i) \<and> val (stk ! c) = VStr old \<longrightarrow>
      push_string i s2 stk = Inr (stk[c := (stk ! c)\<lparr>val := VStr (old @ '','' @ s2)\<rparr>]) \<and>
      get_string i (stk[c := (stk ! c)\<lparr>val := VStr (old @ '','' @ s2)\<rparr>])
        = Inr (Some (old @ '','' @ s2)))"
proof (intro conjI impI)
  assume len: "length stk = 10" and h: "holders i stk = 0 \<and> 0 < free_slots stk"
  from h push_string_list_fresh[of i stk s1]
  have f: "used stk < length stk" "entry_identifier (stk ! used stk) = None"
    "push_string_list i s1 stk = Inr (stk[used stk := new_string_entry i s1])" by simp_all
  show "used stk < 10" using f len by simp
  show "entry_identifier (stk ! used stk) = None" by (rule f)
  show "push_string i s1 stk = Inr (stk[used stk := new_string_entry i s1])"
    using f len by (simp add: push_string_is_list)
  show "get_string i (stk[used stk := new_string_entry i s1]) = Inr (Some s1)"
    using h f len get_string_list_fresh[of i stk s1] by (simp add: get_string_is_list)
  have "bind_fault (bind_fault (push_string_list i s1 stk) (push_string_list i s2)) (get_string_list i)
     = Inr (Some (s1 @ '','' @ s2))"
    using h by (simp add: push_string_list_twice)
  then show "bind_fault (bind_fault (push_string i s1 stk) (push_string i s2)) (get_string i)
        = Inr (Some (s1 @ '','' @ s2))"
    using len f by (simp add: push_string_is_list get_string_is_list)
       (cases "push_string_list i s2 (stk[used stk := new_string_entry i s1])";
        simp add: push_string_list_length get_string_is_list)
next
  assume len: "length stk = 10"
    and h: "contiguous stk \<and> c < 10 \<and> entry_identifier (stk ! c) = Some i \<and>
        (\<forall>j<c. entry_identifier (stk ! j) \<noteq> Some i) \<and> val (stk ! c) = VStr old"
  then have cu: "c < used stk" using contiguous_used[of stk c] by simp
  show "push_string i s2 stk = Inr (stk[c := (stk ! c)\<lparr>val := VStr (old @ '','' @ s2)\<rparr>])"
    using len h cu push_string_list_append[of c stk i old s2] by (simp add: push_string_is_list)
  show "get_string i (stk[c := (stk ! c)\<lparr>val := VStr (old @ '','' @ s2)\<rparr>])
        = Inr (Some (old @ '','' @ s2))"
    using len h cu get_string_list_at[of c stk i "old @ '','' @ s2"] by (simp add: get_string_is_list)
qed

theorem push_string_accumulates_witness:
  "length static_stack = 10 \<and> holders ''t'' static_stack = 0 \<and> 0 < free_slots static_stack \<and>
   push_string ''t'' ''foo'' static_stack = Inr (static_stack[0 := new_string_entry ''t'' ''foo'']) \<and>
   bind_fault (bind_fault (push_string ''t'' ''foo'' static_stack) (push_string ''t'' ''bar''))
      (get_string ''t'') = Inr (Some ''foo,bar'') \<and>
   contiguous (static_stack[0 := new_string_entry ''t'' ''foo'']) \<and>
   push_string ''t'' ''bar'' (static_stack[0 := new_string_entry ''t'' ''foo''])
     = Inr (static_stack[0 := new_string_entry ''t'' ''foo,bar'']) \<and>
   get_string ''t'' (static_stack[0 := new_string_entry ''t'' ''foo,bar'']) = Inr (Some ''foo,bar'')"
proof -
  have a: "length static_stack = 10" by (simp add: static_stack_def)
  have b: "holders ''t'' static_stack = 0 \<and> 0 < free_slots static_stack"
    by (simp add: static_stack_def holders_def free_slots_def unused_entry_def)
  have u: "used static_stack = 0" by (simp add: static_stack_def used_def unused_entry_def)
  let ?s = "static_stack[0 := new_string_entry ''t'' ''foo'']"
  have l2: "length ?s = 10" by (simp add: static_stack_def)
  have c: "contiguous ?s"
    by (simp add: static_stack_def contiguous_def new_string_entry_def unused_entry_def numeral_Bit0 numeral_Bit1)
  have d: "entry_identifier (?s ! 0) = Some ''t'' \<and> val (?s ! 0) = VStr ''foo''"
    by (simp add: static_stack_def new_string_entry_def)
  have e: "(?s ! 0)\<lparr>val := VStr (''foo'' @ '','' @ ''bar'')\<rparr> = new_string_entry ''t'' ''foo,bar''"
    by (simp add: static_stack_def new_string_entry_def)
  have "push_string ''t'' ''foo'' static_stack = Inr (static_stack[used static_stack := new_string_entry ''t'' ''foo'']) \<and>
     bind_fault (bind_fault (push_string ''t'' ''foo'' static_stack) (push_string ''t'' ''bar''))
      (get_string ''t'') = Inr (Some (''foo'' @ '','' @ ''bar''))"
    using push_string_accumulates[OF a, of "''t''" "''foo''" "''bar''"] b by blast
  then have p1: "push_string ''t'' ''foo'' static_stack = Inr ?s"
    and p2: "bind_fault (bind_fault (push_string ''t'' ''foo'' static_stack) (push_string ''t'' ''bar''))
      (get_string ''t'') = Inr (Some ''foo,bar'')" unfolding u by auto
  have "push_string ''t'' ''bar'' ?s = Inr (?s[0 := (?s ! 0)\<lparr>val := VStr (''foo'' @ '','' @ ''bar'')\<rparr>]) \<and>
      get_string ''t'' (?s[0 := (?s ! 0)\<lparr>val := VStr (''foo'' @ '','' @ ''bar'')\<rparr>]) = Inr (Some (''foo'' @ '','' @ ''bar''))"
    using push_string_accumulates[OF l2, of "''t''" "''foo''" "''bar''" 0 "''foo''"] c d by simp
  then have p3: "push_string ''t'' ''bar'' ?s = Inr (static_stack[0 := new_string_entry ''t'' ''foo,bar''])"
    and p4: "get_string ''t'' (static_stack[0 := new_string_entry ''t'' ''foo,bar'']) = Inr (Some ''foo,bar'')"
    unfolding e by simp_all
  show ?thesis using a b c p1 p2 p3 p4 by simp
qed

subsection \<open>Integers on the stack\<close>

lemma push_long_list_free:
  "0 < free_slots stk \<Longrightarrow>
   used stk < length stk \<and> entry_identifier (stk ! used stk) = None \<and>
   push_long_list i n stk = Inr (stk[used stk := new_long_entry i n])"
proof (induction stk)
  case Nil
  then show ?case by (simp add: free_slots_def)
next
  case (Cons e es)
  show ?case
  proof (cases "entry_identifier e")
    case None
    then show ?thesis by (simp add: used_def)
  next
    case (Some j)
    with Cons.prems have "0 < free_slots es" by (simp add: free_slots_def)
    with Cons.IH Some show ?thesis by (simp add: used_def)
  qed
qed

lemma holders_push:
  "used stk < length stk \<Longrightarrow>
   holders i (stk[used stk := new_long_entry i n]) = Suc (holders i stk) \<and>
   Suc (free_slots (stk[used stk := new_long_entry i n])) = free_slots stk"
proof (induction stk)
  case Nil
  then show ?case by simp
next
  case (Cons e es)
  show ?case
  proof (cases "entry_identifier e")
    case None
    then show ?thesis by (simp add: used_def holders_def free_slots_def new_long_entry_def)
  next
    case (Some j)
    with Cons.prems have "used es < length es" by (simp add: used_def)
    with Cons.IH Some show ?thesis by (simp add: used_def holders_def free_slots_def)
  qed
qed

lemma get_long_list_absent: "holders i stk = 0 \<Longrightarrow> get_long_list i stk = Inr 0"
  by (induction stk) (auto simp: holders_def split: option.splits if_splits)

lemma get_long_list_first_push:
  "holders i stk = 0 \<Longrightarrow> used stk < length stk \<Longrightarrow>
   get_long_list i (stk[used stk := new_long_entry i n]) = Inr n \<and>
   in_prefix i (stk[used stk := new_long_entry i n])"
proof (induction stk)
  case Nil
  then show ?case by simp
next
  case (Cons e es)
  show ?case
  proof (cases "entry_identifier e")
    case None
    then show ?thesis by (simp add: used_def new_long_entry_def in_prefix_def)
  next
    case (Some j)
    with Cons.prems have "j \<noteq> i" "holders i es = 0" "used es < length es"
      by (auto simp: holders_def used_def split: if_splits)
    with Cons.IH Some show ?thesis by (simp add: used_def in_prefix_def)
  qed
qed

lemma get_long_list_later_push:
  "in_prefix i stk \<Longrightarrow>
   get_long_list i (stk[used stk := new_long_entry j n]) = get_long_list i stk \<and>
   in_prefix i (stk[used stk := new_long_entry j n])"
proof (induction stk)
  case Nil
  then show ?case by simp
next
  case (Cons e es)
  show ?case
  proof (cases "entry_identifier e")
    case None
    with Cons.prems show ?thesis by (simp add: in_prefix_def)
  next
    case (Some k)
    show ?thesis
    proof (cases "k = i")
      case True
      with Some show ?thesis by (simp add: used_def in_prefix_def)
    next
      case False
      with Cons.prems Some have "in_prefix i es"
        by (auto simp: in_prefix_def)
      with Cons.IH Some False show ?thesis by (simp add: used_def in_prefix_def)
    qed
  qed
qed

lemma push_longs_list_more:
  "in_prefix i stk \<Longrightarrow> length vs \<le> free_slots stk \<Longrightarrow>
   \<exists>stk'. push_longs_list i vs stk = Inr stk' \<and> length stk' = length stk \<and>
          holders i stk' = holders i stk + length vs \<and> get_long_list i stk' = get_long_list i stk"
proof (induction vs arbitrary: stk)
  case Nil
  then show ?case by simp
next
  case (Cons v vs)
  then have f: "0 < free_slots stk" by simp
  let ?s = "stk[used stk := new_long_entry i v]"
  from push_long_list_free[OF f, of i v]
  have u: "used stk < length stk" and p: "push_long_list i v stk = Inr ?s" by simp_all
  from holders_push[OF u, of i v]
  have h: "holders i ?s = Suc (holders i stk)" and fr: "Suc (free_slots ?s) = free_slots stk" by simp_all
  from get_long_list_later_push[OF Cons.prems(1), of i v]
  have g: "get_long_list i ?s = get_long_list i stk"
    and m: "in_prefix i ?s" by simp_all
  have "length vs \<le> free_slots ?s" using Cons.prems(2) fr by simp
  from Cons.IH[OF m this] obtain stk' where
    "push_longs_list i vs ?s = Inr stk'" "length stk' = length ?s"
    "holders i stk' = holders i ?s + length vs" "get_long_list i stk' = get_long_list i ?s" by blast
  then show ?case using p h g by simp
qed

lemma push_longs_list_first:
  "holders i stk = 0 \<Longrightarrow> Suc (length vs) \<le> free_slots stk \<Longrightarrow>
   \<exists>stk'. push_longs_list i (v # vs) stk = Inr stk' \<and> length stk' = length stk \<and>
          holders i stk' = Suc (length vs) \<and> get_long_list i stk' = Inr v"
proof -
  assume a: "holders i stk = 0" and b: "Suc (length vs) \<le> free_slots stk"
  then have f: "0 < free_slots stk" by simp
  let ?s = "stk[used stk := new_long_entry i v]"
  from push_long_list_free[OF f, of i v]
  have u: "used stk < length stk" and p: "push_long_list i v stk = Inr ?s" by simp_all
  from holders_push[OF u, of i v] a
  have h: "holders i ?s = 1" and fr: "Suc (free_slots ?s) = free_slots stk" by simp_all
  from get_long_list_first_push[OF a u, of v]
  have g: "get_long_list i ?s = Inr v"
    and m: "in_prefix i ?s" by simp_all
  have "length vs \<le> free_slots ?s" using b fr by simp
  from push_longs_list_more[OF m this] obtain stk' where
    "push_longs_list i vs ?s = Inr stk'" "length stk' = length ?s"
    "holders i stk' = holders i ?s + length vs" "get_long_list i stk' = get_long_list i ?s" by blast
  then show ?thesis using p h g by simp
qed

lemma push_longs_list_length: "push_longs_list i vs stk = Inr stk' \<Longrightarrow> length stk' = length stk"
proof (induction vs arbitrary: stk)
  case Nil
  then show ?case by simp
next
  case (Cons v vs)
  then show ?case
    by (cases "push_long_list i v stk") (auto dest: push_long_list_length)
qed

lemma push_longs_is_list: "length stk = 10 \<Longrightarrow> push_longs i vs stk = push_longs_list i vs stk"
proof (induction vs arbitrary: stk)
  case Nil
  then show ?case by simp
next
  case (Cons v vs)
  then show ?case
    by (cases "push_long_list i v stk") (auto simp: push_long_is_list dest: push_long_list_length)
qed

text \<open>
  Claim C8, as amended. \<^verbatim>\<open>push_long\<close> never looks for a slot that already holds the
  identifier: every push takes the first free slot. On a 10-slot stack where no slot holds
  \<open>i\<close>, \<^verbatim>\<open>get_long\<close> returns 0; after the values \<open>v # vs\<close> have been pushed under \<open>i\<close>
  (with that many free slots and no \<^verbatim>\<open>clear_stack\<close> in between), one slot per push holds
  \<open>i\<close> and \<^verbatim>\<open>get_long\<close> returns the value pushed first, \<open>v\<close>.
\<close>

theorem push_long_keeps_every_value:
  "length stk = 10 \<Longrightarrow> holders i stk = 0 \<Longrightarrow>
   get_long i stk = Inr 0 \<and>
   (Suc (length vs) \<le> free_slots stk \<longrightarrow>
      map_ok (holders i) (push_longs i (v # vs) stk) = Inr (Suc (length vs)) \<and>
      bind_fault (push_longs i (v # vs) stk) (get_long i) = Inr v)"
proof (intro conjI impI)
  assume len: "length stk = 10" and a: "holders i stk = 0"
  show "get_long i stk = Inr 0" using len a by (simp add: get_long_is_list get_long_list_absent)
  assume b: "Suc (length vs) \<le> free_slots stk"
  from push_longs_list_first[OF a b, of v] obtain stk' where
    s: "push_longs_list i (v # vs) stk = Inr stk'" "length stk' = length stk"
    "holders i stk' = Suc (length vs)" "get_long_list i stk' = Inr v" by blast
  have e: "push_longs i (v # vs) stk = Inr stk'" using s(1) len by (simp only: push_longs_is_list)
  show "map_ok (holders i) (push_longs i (v # vs) stk) = Inr (Suc (length vs))"
    unfolding e using s by simp
  show "bind_fault (push_longs i (v # vs) stk) (get_long i) = Inr v"
    unfolding e using s len by (simp add: get_long_is_list)
qed

theorem push_long_keeps_every_value_witness:
  "length static_stack = 10 \<and> holders ''num'' static_stack = 0 \<and>
   Suc (length [2::int]) \<le> free_slots static_stack \<and>
   get_long ''num'' static_stack = Inr 0 \<and>
   map_ok (holders ''num'') (push_longs ''num'' [1, 2] static_stack) = Inr 2 \<and>
   bind_fault (push_longs ''num'' [1, 2] static_stack) (get_long ''num'') = Inr 1"
proof -
  have a: "length static_stack = 10" by (simp add: static_stack_def)
  have b: "holders ''num'' static_stack = 0"
    by (simp add: static_stack_def holders_def unused_entry_def)
  have c: "Suc (length [2::int]) \<le> free_slots static_stack"
    by (simp add: static_stack_def free_slots_def unused_entry_def)
  show ?thesis using push_long_keeps_every_value[OF a b, of "[2]" 1] a b c by simp
qed

text \<open>
  Two pushes under the same identifier on the empty stack: two slots hold it and
  \<^verbatim>\<open>get_long\<close> returns the first value, not the most recent one.
\<close>

theorem push_long_twice_counterexample:
  "bind_fault (push_longs ''num'' [1, 2] static_stack) (get_long ''num'') = Inr 1 \<and>
   bind_fault (push_longs ''num'' [1, 2] static_stack) (get_long ''num'') \<noteq> Inr 2 \<and>
   map_ok (holders ''num'') (push_longs ''num'' [1, 2] static_stack) = Inr 2"
  by code_simp

subsection \<open>The stack stays contiguous\<close>

lemma contiguous_Cons:
  "contiguous (e # es) = (if entry_identifier e = None then list_all (\<lambda>e. entry_identifier e = None) es else contiguous es)"
  by (simp add: contiguous_def)

lemma all_free_contiguous: "list_all (\<lambda>e. entry_identifier e = None) es \<Longrightarrow> contiguous es"
  by (induction es) (simp_all add: contiguous_def)

lemma push_string_list_contiguous:
  "contiguous stk \<Longrightarrow> push_string_list i s stk = Inr stk' \<Longrightarrow> contiguous stk'"
proof (induction stk arbitrary: stk')
  case Nil
  then show ?case by simp
next
  case (Cons e es)
  then show ?case
    by (cases "push_string_list i s es")
       (auto simp: contiguous_Cons new_string_entry_def all_free_contiguous
             split: option.splits if_splits stack_val.splits)
qed

lemma push_long_list_contiguous:
  "contiguous stk \<Longrightarrow> push_long_list i n stk = Inr stk' \<Longrightarrow> contiguous stk'"
proof (induction stk arbitrary: stk')
  case Nil
  then show ?case by simp
next
  case (Cons e es)
  then show ?case
    by (cases "push_long_list i n es")
       (auto simp: contiguous_Cons new_long_entry_def all_free_contiguous split: if_splits)
qed

lemma clear_stack_unused: "all_unused (clear_stack stk)"
  by (induction stk) (simp_all add: all_unused_def clear_stack_def)

lemma clear_stack_length [simp]: "length (clear_stack stk) = length stk"
  by (simp add: clear_stack_def)

lemma clear_stack_idem: "clear_stack (clear_stack stk) = clear_stack stk"
  by (simp add: clear_stack_def)

lemma all_unused_contiguous: "all_unused stk \<Longrightarrow> contiguous stk"
  by (rule all_free_contiguous) (induction stk; simp add: all_unused_def)

lemma clear_stack_contiguous: "contiguous (clear_stack stk)"
  by (rule all_unused_contiguous) (rule clear_stack_unused)

lemma all_free_no_holder:
  "list_all (\<lambda>e. entry_identifier e = None) es \<Longrightarrow> find (\<lambda>e. entry_identifier e = Some i) es = None"
  by (induction es) simp_all

lemma get_long_list_contiguous:
  "contiguous stk \<Longrightarrow> get_long_list i stk = read_num (first_holder i stk)"
proof (induction stk)
  case Nil
  then show ?case by (simp add: read_num_def first_holder_def)
next
  case (Cons e es)
  show ?case
  proof (cases "entry_identifier e")
    case None
    with Cons.prems show ?thesis
      by (simp add: contiguous_Cons read_num_def first_holder_def all_free_no_holder)
  next
    case (Some j)
    with Cons show ?thesis
      by (auto simp: contiguous_Cons read_num_def first_holder_def split: stack_val.splits)
  qed
qed

lemma get_string_list_contiguous:
  "contiguous stk \<Longrightarrow> get_string_list i stk = read_str (first_holder i stk)"
proof (induction stk)
  case Nil
  then show ?case by (simp add: read_str_def first_holder_def)
next
  case (Cons e es)
  show ?case
  proof (cases "entry_identifier e")
    case None
    with Cons.prems show ?thesis
      by (simp add: contiguous_Cons read_str_def first_holder_def all_free_no_holder)
  next
    case (Some j)
    with Cons show ?thesis
      by (auto simp: contiguous_Cons read_str_def first_holder_def split: stack_val.splits)
  qed
qed

lemma capture_value_ok:
  "length stk = 10 \<Longrightarrow> contiguous stk \<Longrightarrow> capture_value ident cap stk = Inr stk' \<Longrightarrow>
   length stk' = 10 \<and> contiguous stk'"
  by (auto simp: capture_value_def push_string_is_list push_long_is_list
           split: option.splits capture.splits
           dest: push_string_list_length push_long_list_length
                 push_string_list_contiguous push_long_list_contiguous)



subsection \<open>Transitions\<close>

lemma statelist_search_Some:
  "statelist_search i idx sl s = Some k \<Longrightarrow>
   i \<le> k \<and> k < idx \<and> sl ! k = s \<and> (\<forall>j. i \<le> j \<and> j < k \<longrightarrow> sl ! j \<noteq> s)"
proof (induction i idx sl s rule: statelist_search.induct)
  case (1 i idx sl s)
  show ?case
  proof (cases "i < idx \<and> sl ! i \<noteq> s")
    case True
    with 1 have "statelist_search (i + 1) idx sl s = Some k"
      by (subst (asm) (2) statelist_search.simps) simp
    with 1 True have "i + 1 \<le> k \<and> k < idx \<and> sl ! k = s \<and> (\<forall>j. i + 1 \<le> j \<and> j < k \<longrightarrow> sl ! j \<noteq> s)"
      by simp
    with True show ?thesis
      by (metis Suc_eq_plus1 Suc_leD Suc_leI le_neq_implies_less)
  next
    case False
    with 1(2) show ?thesis
      by (subst (asm) statelist_search.simps) (auto split: if_splits)
  qed
qed

lemma statelist_search_None:
  "statelist_search i idx sl s = None \<Longrightarrow> \<forall>j. i \<le> j \<and> j < idx \<longrightarrow> sl ! j \<noteq> s"
proof (induction i idx sl s rule: statelist_search.induct)
  case (1 i idx sl s)
  show ?case
  proof (cases "i < idx")
    case True
    with 1(2) have ne: "sl ! i \<noteq> s" and r: "statelist_search (i + 1) idx sl s = None"
      by (subst (asm) statelist_search.simps, simp split: if_splits)+
    with 1 True have "\<forall>j. i + 1 \<le> j \<and> j < idx \<longrightarrow> sl ! j \<noteq> s" by simp
    with ne show ?thesis
      by (metis Suc_eq_plus1 Suc_leI le_neq_implies_less)
  next
    case False
    then show ?thesis by auto
  qed
qed

lemma statelist_search_first:
  "i < idx \<Longrightarrow> sl ! i = s \<Longrightarrow> \<forall>j<i. sl ! j \<noteq> s \<Longrightarrow> statelist_search 0 idx sl s = Some i"
proof (cases "statelist_search 0 idx sl s")
  case None
  assume "i < idx" "sl ! i = s"
  with statelist_search_None[OF None] show ?thesis by auto
next
  case (Some k)
  assume a: "i < idx" "sl ! i = s" "\<forall>j<i. sl ! j \<noteq> s"
  from statelist_search_Some[OF Some] have k: "k < idx" "sl ! k = s" "\<forall>j<k. sl ! j \<noteq> s" by auto
  with a have "k = i" by (metis linorder_neqE_nat)
  with Some show ?thesis by simp
qed

lemma statelist_search_absent:
  "idx \<le> length sl \<Longrightarrow> s \<notin> set (take idx sl) \<Longrightarrow> statelist_search 0 idx sl s = None"
proof (cases "statelist_search 0 idx sl s")
  case None
  then show ?thesis by simp
next
  case (Some k)
  assume a: "idx \<le> length sl" "s \<notin> set (take idx sl)"
  from statelist_search_Some[OF Some] have "k < idx" "sl ! k = s" by auto
  with a have "s \<in> set (take idx sl)" by (metis in_set_conv_nth length_take min.absorb2 nth_take)
  with a show ?thesis by simp
qed

lemma commit_fields:
  "state (commit hs tok st) = committed_state hs tok st"
  "statelist (commit hs tok st) = statelist st"
  "statelist_idx (commit hs tok st) = statelist_idx st"
  "walk (commit hs tok st) = walk st"
  "linecnt (commit hs tok st) = linecnt st"
  "errormessages (commit hs tok st) = errormessages st"
  by (auto simp: commit_def committed_state_def Let_def split: prod.splits)

lemma commit_stack:
  "stack (commit hs tok st) =
     (if token_next_state tok = CALL \<or> committed_state hs tok st = INITIAL
      then clear_stack (stack st) else stack st)"
  by (auto simp: commit_def committed_state_def Let_def clear_stack_idem split: prod.splits)

lemma next_state_fields:
  "next_state hs tok st = Inr st' \<Longrightarrow>
   state st' = committed_state hs tok st \<and> walk st' = walk st \<and> linecnt st' = linecnt st \<and>
   errormessages st' = errormessages st \<and> stack st' = stack (commit hs tok st)"
  by (auto simp: next_state_def Let_def commit_fields split: option.splits if_splits)

lemma take_update_end: "n < length xs \<Longrightarrow> take (Suc n) (xs[n := x]) = take n xs @ [x]"
  by (simp add: take_Suc_conv_app_nth)

lemma search_None_notin:
  "statelist_search 0 idx sl s = None \<Longrightarrow> s \<notin> set (take idx sl)"
proof
  assume n: "statelist_search 0 idx sl s = None" and "s \<in> set (take idx sl)"
  then obtain j where "j < length (take idx sl)" "take idx sl ! j = s"
    by (auto simp: in_set_conv_nth)
  then have "j < idx" "sl ! j = s" by simp_all
  with statelist_search_None[OF n] show False by simp
qed

lemma next_state_found:
  assumes "i < statelist_idx st" "statelist st ! i = committed_state hs tok st"
    "\<forall>j<i. statelist st ! j \<noteq> committed_state hs tok st"
  shows "next_state hs tok st = Inr ((commit hs tok st)\<lparr>statelist_idx := i + 1\<rparr>)"
  using statelist_search_first[OF assms]
  by (simp add: next_state_def Let_def commit_fields)

lemma next_state_new:
  assumes "statelist_idx st \<le> length (statelist st)"
    "committed_state hs tok st \<notin> set (trail st)"
  shows "next_state hs tok st =
     (if statelist_idx st < 10 then
        Inr ((commit hs tok st)\<lparr>statelist := (statelist st)[statelist_idx st := committed_state hs tok st],
                                 statelist_idx := statelist_idx st + 1\<rparr>)
      else Inl StatelistOverrun)"
  using statelist_search_absent[OF assms(1), of "committed_state hs tok st"] assms(2)
  by (simp add: next_state_def Let_def commit_fields trail_def)

lemma next_state_trail_ok:
  assumes ok: "trail_ok st" and ns: "next_state hs tok st = Inr st'"
  shows "trail_ok st'"
proof (cases "statelist_search 0 (statelist_idx st) (statelist st) (committed_state hs tok st)")
  case None
  with ns have lt: "statelist_idx st < 10"
    and st': "st' = (commit hs tok st)\<lparr>statelist := (statelist st)[statelist_idx st := committed_state hs tok st],
                                 statelist_idx := statelist_idx st + 1\<rparr>"
    by (auto simp: next_state_def Let_def commit_fields split: if_splits)
  from search_None_notin[OF None] have notin: "committed_state hs tok st \<notin> set (take (statelist_idx st) (statelist st))" .
  have len: "statelist_idx st < length (statelist st)" using ok lt by (simp add: trail_ok_def)
  have "trail st' = trail st @ [committed_state hs tok st]"
    using len by (simp add: st' trail_def take_update_end)
  moreover have "statelist st' ! 0 = INITIAL" using ok by (simp add: st' trail_ok_def)
  ultimately show ?thesis using ok lt notin by (simp add: trail_ok_def st' trail_def)
next
  case (Some i)
  with ns have st': "st' = (commit hs tok st)\<lparr>statelist_idx := i + 1\<rparr>"
    by (auto simp: next_state_def Let_def commit_fields)
  from statelist_search_Some[OF Some] have i: "i < statelist_idx st" by simp
  have "trail st' = take (i + 1) (trail st)"
    using i by (simp add: st' trail_def commit_fields min_def)
  then have "distinct (trail st')" using ok by (simp add: trail_ok_def)
  then show ?thesis using ok i by (simp add: trail_ok_def st' commit_fields)
qed

lemma commit_unused:
  "token_next_state tok = CALL \<or> state (commit hs tok st) = INITIAL \<Longrightarrow>
   all_unused (stack (commit hs tok st))"
  by (auto simp: commit_stack commit_fields clear_stack_unused)

lemma next_state_stack_ok:
  "stack_ok st \<Longrightarrow> next_state hs tok st = Inr st' \<Longrightarrow> stack_ok st'"
  by (auto simp: stack_ok_def commit_stack clear_stack_contiguous dest!: next_state_fields)

text \<open>
  Claim C9. With a grammar that chains ten states behind \<^verbatim>\<open>INITIAL\<close>, the tenth transition
  finds \<^verbatim>\<open>statelist_idx = 10\<close> and a state that is not in the trail. \<^verbatim>\<open>next_state\<close> has no
  check: it stores to \<^verbatim>\<open>statelist[10]\<close>, behind the array (\<open>StatelistOverrun\<close>), where
  \<^verbatim>\<open>push_string\<close> and \<^verbatim>\<open>push_long\<close> print a message and exit when the stack is full.
\<close>

theorem statelist_overrun_unchecked:
  "parse_config 10 chain_tokens recording_handlers ''aaaaaaaaaa'' static_stack (static_statelist INITIAL) []
     = Some (Inl StatelistOverrun)"
  by code_simp

subsection \<open>The error message\<close>

text \<open>
  Claim C4. In the state with the descriptors \<^verbatim>\<open>'bindsym\<close>, \<^verbatim>\<open>'bindcode\<close>, \<^verbatim>\<open>word\<close>,
  \<^verbatim>\<open>error\<close> the message built for an unmatched input (here \<^verbatim>\<open>]\<close>, where a word cannot
  start) ends in a separator: the separator is written after every descriptor but the last
  of the table, and the \<^verbatim>\<open>error\<close> descriptor, skipped by \<^verbatim>\<open>continue\<close>, is the last.
\<close>

theorem trailing_separator_before_error:
  "errormessage (bind_tokens INITIAL) = ''Expected one of these tokens: 'bindsym', 'bindcode', <word>, '' \<and>
   map_option (map_ok errormessages)
     (parse_config 1 bind_tokens recording_handlers '']'' static_stack (static_statelist INITIAL) [])
   = Some (Inr [''Expected one of these tokens: 'bindsym', 'bindcode', <word>, ''])"
  by code_simp

subsection \<open>Scanning\<close>

lemma scan_while_ge: "w \<le> scan_while cont bound w"
proof (induction cont bound w rule: scan_while.induct)
  case (1 cont bound w)
  show ?case
  proof (cases "w < bound \<and> cont w")
    case True
    with 1 have "w + 1 \<le> scan_while cont bound (w + 1)" by simp
    with True show ?thesis by (subst scan_while.simps) simp
  next
    case False
    then show ?thesis by (subst scan_while.simps) auto
  qed
qed

lemma scan_while_le: "w \<le> bound \<Longrightarrow> scan_while cont bound w \<le> bound"
proof (induction cont bound w rule: scan_while.induct)
  case (1 cont bound w)
  show ?case
  proof (cases "w < bound \<and> cont w")
    case True
    with 1 have "scan_while cont bound (w + 1) \<le> bound" by simp
    with True show ?thesis by (subst scan_while.simps) simp
  next
    case False
    with 1 show ?thesis by (subst scan_while.simps) auto
  qed
qed

lemma scan_while_all: "w \<le> k \<Longrightarrow> k < scan_while cont bound w \<Longrightarrow> cont k"
proof (induction cont bound w rule: scan_while.induct)
  case (1 cont bound w)
  show ?case
  proof (cases "w < bound \<and> cont w")
    case True
    then have e: "scan_while cont bound w = scan_while cont bound (w + 1)"
      by (subst scan_while.simps) simp
    show ?thesis
    proof (cases "k = w")
      case True
      with \<open>w < bound \<and> cont w\<close> show ?thesis by simp
    next
      case False
      with 1 True e show ?thesis by simp
    qed
  next
    case False
    then have "scan_while cont bound w = w" by (subst scan_while.simps) auto
    with 1 show ?thesis by simp
  qed
qed

lemma scan_while_stop: "scan_while cont bound w < bound \<Longrightarrow> \<not> cont (scan_while cont bound w)"
proof (induction cont bound w rule: scan_while.induct)
  case (1 cont bound w)
  show ?case
  proof (cases "w < bound \<and> cont w")
    case True
    then have e: "scan_while cont bound w = scan_while cont bound (w + 1)"
      by (subst scan_while.simps) simp
    with 1 True show ?thesis by simp
  next
    case False
    then have e: "scan_while cont bound w = w" by (subst scan_while.simps) auto
    with 1(2) False show ?thesis by simp
  qed
qed


lemma scan_while_unbounded:
  "\<forall>i. cont i \<longrightarrow> i < bound \<Longrightarrow>
   scan_while cont bound w = (if cont w then scan_while cont bound (w + 1) else w)"
  by (subst scan_while.simps) auto

subsection \<open>Quoted strings\<close>

lemma slice_step: "a < b \<Longrightarrow> b \<le> length inp \<Longrightarrow> slice inp a b = inp ! a # slice inp (Suc a) b"
  by (simp add: slice_def Cons_nth_drop_Suc take_Suc_Cons[symmetric] Suc_diff_Suc del: take_Suc_Cons)

lemma slice_empty: "b \<le> a \<Longrightarrow> slice inp a b = []"
  by (simp add: slice_def)

lemma copy_escaped_unescape:
  "inpos \<le> n \<Longrightarrow> beginning + n \<le> length inp \<Longrightarrow>
   \<not> (0 < n \<and> peek inp (beginning + n - 1) = CHR 0x5C \<and> peek inp (beginning + n) = CHR 0x22) \<Longrightarrow>
   copy_escaped inp beginning n inpos = unescape (slice inp (beginning + inpos) (beginning + n))"
proof (induction inp beginning n inpos rule: copy_escaped.induct)
  case (1 inp beginning n inpos)
  show ?case
  proof (cases "inpos < n")
    case False
    then show ?thesis by (subst copy_escaped.simps) (simp add: slice_empty)
  next
    case True
    let ?c = "peek inp (beginning + inpos)"
    let ?d = "peek inp (beginning + inpos + 1)"
    have c: "?c = inp ! (beginning + inpos)" using True 1(3) by (simp add: peek_def)
    have s1: "slice inp (beginning + inpos) (beginning + n) = ?c # slice inp (beginning + inpos + 1) (beginning + n)"
      using True 1(3) c by (simp add: slice_step)
    show ?thesis
    proof (cases "?c = CHR 0x5C \<and> ?d = CHR 0x22")
      case esc: True
      have lt: "inpos + 1 < n"
      proof (rule ccontr)
        assume "\<not> inpos + 1 < n"
        with True have "n = inpos + 1" by simp
        with esc 1(4) show False by simp
      qed
      have d: "?d = inp ! (beginning + inpos + 1)" using lt 1(3) by (simp add: peek_def)
      have s2: "slice inp (beginning + inpos + 1) (beginning + n) = ?d # slice inp (beginning + (inpos + 1 + 1)) (beginning + n)"
        using lt 1(3) d slice_step[of "beginning + inpos + 1" "beginning + n" inp] by (simp add: add.assoc)
      have ih: "copy_escaped inp beginning n (inpos + 1 + 1) = unescape (slice inp (beginning + (inpos + 1 + 1)) (beginning + n))"
        using 1(1)[of "inpos + 1"] True esc lt 1(3,4) by simp
      have "copy_escaped inp beginning n inpos = ?d # copy_escaped inp beginning n (inpos + 1 + 1)"
        using True esc by (subst copy_escaped.simps) (simp add: Let_def add.assoc)
      then show ?thesis using ih s1 s2 esc by simp
    next
      case noesc: False
      have ih: "copy_escaped inp beginning n (inpos + 1) = unescape (slice inp (beginning + (inpos + 1)) (beginning + n))"
        using 1(1)[of inpos] True noesc 1(3,4) by simp
      have step: "copy_escaped inp beginning n inpos = ?c # copy_escaped inp beginning n (inpos + 1)"
        using True noesc by (subst copy_escaped.simps) (auto simp: Let_def)
      show ?thesis
      proof (cases "inpos + 1 < n")
        case False
        with True have "slice inp (beginning + inpos + 1) (beginning + n) = []" by (simp add: slice_empty)
        with step ih s1 show ?thesis by (simp add: add.assoc)
      next
        case lt: True
        have d: "?d = inp ! (beginning + inpos + 1)" using lt 1(3) by (simp add: peek_def)
        have s2: "slice inp (beginning + inpos + 1) (beginning + n) = ?d # slice inp (beginning + (inpos + 1 + 1)) (beginning + n)"
          using lt 1(3) d slice_step[of "beginning + inpos + 1" "beginning + n" inp] by (simp add: add.assoc)
        show ?thesis using step ih s1 s2 noesc by (auto simp: add.assoc)
      qed
    qed
  qed
qed

lemma unescape_pair: "unescape (a @ [CHR 0x5C, CHR 0x22] @ b) = unescape a @ [CHR 0x22] @ unescape b"
  by (induction a rule: unescape.induct) auto

lemma unescape_plain: "\<not> has_escaped_quote s \<Longrightarrow> unescape s = s"
  by (induction s rule: unescape.induct) auto

lemma quoted_end_bounds:
  "peek inp w = CHR 0x22 \<Longrightarrow> w + 1 \<le> quoted_end inp w \<and> quoted_end inp w \<le> length inp"
proof -
  assume "peek inp w = CHR 0x22"
  then have "w < length inp" by (auto simp: peek_def split: if_splits)
  then show ?thesis unfolding quoted_end_def
    using scan_while_ge[of "w + 1"] scan_while_le[of "w + 1" "length inp"] by simp
qed

lemma quoted_end_stop:
  "peek inp w = CHR 0x22 \<Longrightarrow>
   \<not> (peek inp (quoted_end inp w - 1) = CHR 0x5C \<and> peek inp (quoted_end inp w) = CHR 0x22)"
proof
  assume q: "peek inp w = CHR 0x22"
    and a: "peek inp (quoted_end inp w - 1) = CHR 0x5C \<and> peek inp (quoted_end inp w) = CHR 0x22"
  let ?e = "quoted_end inp w"
  from a have "?e < length inp" by (auto simp: peek_def split: if_splits)
  then have "\<not> (peek inp ?e \<noteq> CHR 0x00 \<and> (peek inp ?e \<noteq> CHR 0x22 \<or> peek inp (?e - 1) = CHR 0x5C))"
    unfolding quoted_end_def by (rule scan_while_stop)
  with a show False by simp
qed

text \<open>
  Claim C6. A \<^verbatim>\<open>string\<close> or \<^verbatim>\<open>word\<close> descriptor at an opening double quote: the content
  runs to the first double quote that has no backslash before it (or to the end of the
  input); an empty content does not match; otherwise the captured value is the content
  with every backslash-doublequote pair replaced by the double quote and every other byte,
  other backslashes included, as in the source.
\<close>

theorem quoted_token_value:
  "(name tok = ''string'' \<or> name tok = ''word'') \<and> peek inp w = CHR 0x22 \<Longrightarrow>
   lex_token tok inp w =
     (if quoted_end inp w = w + 1 then NoMatch (w + 1)
      else Match (if peek inp (quoted_end inp w) = CHR 0x22 then quoted_end inp w + 1 else quoted_end inp w)
             (CapString (unescape (slice inp (w + 1) (quoted_end inp w)))) False False) \<and>
   w + 1 \<le> quoted_end inp w \<and> quoted_end inp w \<le> length inp \<and>
   (peek inp (quoted_end inp w) = CHR 0x00 \<or>
      peek inp (quoted_end inp w) = CHR 0x22 \<and> peek inp (quoted_end inp w - 1) \<noteq> CHR 0x5C) \<and>
   (w + 1 \<le> k \<and> k < quoted_end inp w \<longrightarrow>
      peek inp k \<noteq> CHR 0x00 \<and> (peek inp k \<noteq> CHR 0x22 \<or> peek inp (k - 1) = CHR 0x5C)) \<and>
   unescape (a @ [CHR 0x5C, CHR 0x22] @ b) = unescape a @ [CHR 0x22] @ unescape b \<and>
   (\<not> has_escaped_quote s \<longrightarrow> unescape s = s)"
proof (intro conjI impI)
  assume h: "(name tok = ''string'' \<or> name tok = ''word'') \<and> peek inp w = CHR 0x22"
  then have q: "peek inp w = CHR 0x22" by simp
  let ?e = "quoted_end inp w"
  from quoted_end_bounds[OF q] show b1: "w + 1 \<le> ?e" and b2: "?e \<le> length inp" by simp_all
  have nl: "\<not> is_literal tok" "name tok \<noteq> ''number''" "name tok \<noteq> ''line''" "name tok \<noteq> ''end''"
    using h by (auto simp: is_literal_def)
  have cp: "copy_escaped inp (w + 1) (?e - (w + 1)) 0 = unescape (slice inp (w + 1) ?e)"
    using copy_escaped_unescape[of 0 "?e - (w + 1)" "w + 1" inp] b1 b2 quoted_end_stop[OF q]
    by (cases "?e = w + 1") auto
  have "lex_string_or_word tok inp w =
     (if ?e = w + 1 then NoMatch (w + 1)
      else Match (if peek inp ?e = CHR 0x22 then ?e + 1 else ?e)
             (CapString (unescape (slice inp (w + 1) ?e))) False False)"
    using q cp by (simp add: lex_string_or_word_def Let_def quoted_end_def)
  then show "lex_token tok inp w =
     (if ?e = w + 1 then NoMatch (w + 1)
      else Match (if peek inp ?e = CHR 0x22 then ?e + 1 else ?e)
             (CapString (unescape (slice inp (w + 1) ?e))) False False)"
    using h nl by (auto simp: lex_token_def)
  show "unescape (a @ [CHR 0x5C, CHR 0x22] @ b) = unescape a @ [CHR 0x22] @ unescape b"
    by (rule unescape_pair)
next
  assume "\<not> has_escaped_quote s"
  then show "unescape s = s" by (rule unescape_plain)
next
  assume h: "(name tok = ''string'' \<or> name tok = ''word'') \<and> peek inp w = CHR 0x22"
  let ?e = "quoted_end inp w"
  show "peek inp ?e = CHR 0x00 \<or> peek inp ?e = CHR 0x22 \<and> peek inp (?e - 1) \<noteq> CHR 0x5C"
  proof (cases "?e < length inp")
    case True
    then have "\<not> (peek inp ?e \<noteq> CHR 0x00 \<and> (peek inp ?e \<noteq> CHR 0x22 \<or> peek inp (?e - 1) = CHR 0x5C))"
      unfolding quoted_end_def by (rule scan_while_stop)
    then show ?thesis by auto
  next
    case False
    then show ?thesis by (simp add: peek_def)
  qed
next
  assume k: "w + 1 \<le> k \<and> k < quoted_end inp w"
  then have kk: "peek inp k \<noteq> CHR 0x00 \<and> (peek inp k \<noteq> CHR 0x22 \<or> peek inp (k - 1) = CHR 0x5C)"
    unfolding quoted_end_def using scan_while_all[of "w + 1" k] by blast
  from kk show "peek inp k \<noteq> CHR 0x00" by simp
  from kk show "peek inp k \<noteq> CHR 0x22 \<or> peek inp (k - 1) = CHR 0x5C" by simp
qed

theorem quoted_token_value_witness:
  "(name (mk_token ''string'' (Some ''cmd'') CALL 0) = ''string'' \<or>
    name (mk_token ''string'' (Some ''cmd'') CALL 0) = ''word'') \<and>
   peek exec_line 5 = CHR 0x22 \<and>
   quoted_end exec_line 5 = 17 \<and>
   lex_token (mk_token ''string'' (Some ''cmd'') CALL 0) exec_line 5
     = Match 18 (CapString (''echo '' @ [CHR 0x22] @ ''hi'' @ [CHR 0x22])) False False \<and>
   peek (''x '' @ [CHR 0x22, CHR 0x22]) 2 = CHR 0x22 \<and>
   lex_token (mk_token ''string'' (Some ''cmd'') CALL 0) (''x '' @ [CHR 0x22, CHR 0x22]) 2 = NoMatch 3"
proof -
  let ?tok = "mk_token ''string'' (Some ''cmd'') CALL 0"
  let ?i2 = "''x '' @ [CHR 0x22, CHR 0x22]"
  have h: "(name ?tok = ''string'' \<or> name ?tok = ''word'') \<and> peek exec_line 5 = CHR 0x22"
    by code_simp
  have e: "quoted_end exec_line 5 = 17" by code_simp
  have p: "peek exec_line 17 = CHR 0x22" by code_simp
  have u: "unescape (slice exec_line (5 + 1) 17) = ''echo '' @ [CHR 0x22] @ ''hi'' @ [CHR 0x22]"
    by code_simp
  have m: "lex_token ?tok exec_line 5
     = Match 18 (CapString (''echo '' @ [CHR 0x22] @ ''hi'' @ [CHR 0x22])) False False"
    using quoted_token_value[OF h, where k=6 and a="[]" and b="[]" and s="[]"] unfolding e p u by simp
  have h2: "(name ?tok = ''string'' \<or> name ?tok = ''word'') \<and> peek ?i2 2 = CHR 0x22"
    by code_simp
  have e2: "quoted_end ?i2 2 = 3" by code_simp
  have n: "lex_token ?tok ?i2 2 = NoMatch 3"
    using quoted_token_value[OF h2, where k=6 and a="[]" and b="[]" and s="[]"] unfolding e2 by simp
  show ?thesis using h e m h2 n by blast
qed

subsection \<open>Progress of the lexer\<close>


lemma peek_in_range: "peek inp i \<noteq> CHR 0x00 \<Longrightarrow> i < length inp"
  by (auto simp: peek_def split: if_splits)




lemma lex_string_or_word_NoMatch:
  assumes "lex_string_or_word tok inp w = NoMatch w'" "w \<le> length inp"
  shows "w \<le> w' \<and> w' \<le> length inp \<and> (w' = w \<or> peek inp w' \<noteq> CHR 0x0A) \<and>
         (peek inp w \<noteq> CHR 0x22 \<longrightarrow> w' = w)"
proof (cases "peek inp w = CHR 0x22")
  case True
  let ?e = "scan_while (\<lambda>i. peek inp i \<noteq> CHR 0x00 \<and> (peek inp i \<noteq> CHR 0x22 \<or> peek inp (i - 1) = CHR 0x5C))
          (length inp) (w + 1)"
  from True have lt: "w < length inp" by (intro peek_in_range) simp
  from assms(1) True have e: "?e = w + 1" "w' = ?e"
    by (auto simp: lex_string_or_word_def Let_def split: if_splits)
  have "peek inp w' \<noteq> CHR 0x0A"
  proof (cases "w' < length inp")
    case False
    then show ?thesis by (simp add: peek_def)
  next
    case lt': True
    then have "?e < length inp" using e by simp
    then have "\<not> (peek inp ?e \<noteq> CHR 0x00 \<and> (peek inp ?e \<noteq> CHR 0x22 \<or> peek inp (?e - 1) = CHR 0x5C))"
      by (rule scan_while_stop)
    then show ?thesis using e by auto
  qed
  with e lt True show ?thesis by simp
next
  case False
  with assms(1) have "w' = w"
    by (auto simp: lex_string_or_word_def Let_def split: if_splits)
  with assms(2) show ?thesis by simp
qed


lemma lex_token_NoMatch:
  assumes "lex_token tok inp w = NoMatch w'" "w \<le> length inp"
  shows "w \<le> w' \<and> w' \<le> length inp \<and> (w' = w \<or> peek inp w' \<noteq> CHR 0x0A) \<and>
         (peek inp w \<noteq> CHR 0x22 \<longrightarrow> w' = w)"
proof (cases "\<not> is_literal tok \<and> name tok \<noteq> ''number'' \<and> (name tok = ''string'' \<or> name tok = ''word'')")
  case True
  with assms(1) have "lex_string_or_word tok inp w = NoMatch w'"
    by (cases "lex_string_or_word tok inp w") (auto simp: lex_token_def split: if_splits)
  from lex_string_or_word_NoMatch[OF this assms(2)] show ?thesis .
next
  case False
  with assms(1) have "w' = w"
    by (auto simp: lex_token_def split: if_splits prod.splits)
  with assms(2) show ?thesis by simp
qed

lemma lex_token_end_line:
  assumes "name tok = ''end'' \<or> name tok = ''line''" "peek inp w = CHR 0x0A \<or> peek inp w = CHR 0x00"
  shows "lex_token tok inp w \<noteq> NoMatch w'"
  using assms by (auto simp: lex_token_def is_literal_def)

subsection \<open>The driver\<close>

lemma next_state_fault: "next_state hs tok st = Inl f \<Longrightarrow> f = StatelistOverrun"
  by (auto simp: next_state_def Let_def split: option.splits if_splits)




lemma handle_match_Inr:
  assumes "handle_match hs t w1 cap nl r st = Inr st'"
  shows "\<exists>stk st1. capture_value (token_identifier t) cap (stack st) = Inr stk \<and>
           next_state hs t (st\<lparr>stack := stk, walk := w1\<rparr>) = Inr st1 \<and>
           stack st' = stack st1 \<and> state st' = state st1 \<and> walk st' = walk st1 \<and>
           statelist st' = statelist st1 \<and> statelist_idx st' = statelist_idx st1 \<and>
           errormessages st' = errormessages st1"
proof (cases "capture_value (token_identifier t) cap (stack st)")
  case (Inl f)
  with assms show ?thesis by (simp add: handle_match_def)
next
  case (Inr stk)
  show ?thesis
  proof (cases "next_state hs t (st\<lparr>stack := stk, walk := w1\<rparr>)")
    case (Inl f)
    with assms Inr show ?thesis by (simp add: handle_match_def)
  next
    case st1: (Inr st1)
    with assms Inr have "st' = st1\<lparr>semantic := (if r then cfg_criteria_init hs (semantic st1) else semantic st1),
                         linecnt := linecnt st1 + (if nl then 1 else 0)\<rparr>"
      by (simp add: handle_match_def)
    then have "stack st' = stack st1 \<and> state st' = state st1 \<and> walk st' = walk st1 \<and>
           statelist st' = statelist st1 \<and> statelist_idx st' = statelist_idx st1 \<and>
           errormessages st' = errormessages st1" by simp
    with Inr st1 show ?thesis by blast
  qed
qed


lemma try_tokens_NoMatch:
  "lex_token t inp w = NoMatch w1 \<Longrightarrow> try_tokens hs inp (t # ts) w st = try_tokens hs inp ts w1 st"
  by simp

lemma try_tokens_Match:
  "lex_token t inp w = Match w1 cap nl r \<Longrightarrow>
   try_tokens hs inp (t # ts) w st = map_ok Handled (handle_match hs t w1 cap nl r st)"
  by simp

lemma map_ok_Handled:
  "map_ok Handled x = Inr (Handled st') \<longleftrightarrow> x = Inr st'"
  "map_ok Handled x \<noteq> Inr (Unhandled w')"
  "map_ok Handled x = Inl f \<longleftrightarrow> x = Inl f"
  by (cases x; simp)+

declare try_tokens.simps(2) [simp del]


lemma try_tokens_trail_ok:
  "try_tokens hs inp toks w st = Inr (Handled st') \<Longrightarrow> trail_ok st \<Longrightarrow> trail_ok st'"
proof (induction toks arbitrary: w)
  case Nil
  then show ?case by simp
next
  case (Cons t ts)
  show ?case
  proof (cases "lex_token t inp w")
    case (NoMatch w1)
    with Cons.prems(1) have "try_tokens hs inp ts w1 st = Inr (Handled st')"
      by (simp only: try_tokens_NoMatch)
    from Cons.IH[OF this Cons.prems(2)] show ?thesis .
  next
    case (Match w1 cap nl r)
    with Cons.prems(1) have "handle_match hs t w1 cap nl r st = Inr st'"
      by (simp only: try_tokens_Match map_ok_Handled)
    from handle_match_Inr[OF this] obtain stk st1 where
      n: "next_state hs t (st\<lparr>stack := stk, walk := w1\<rparr>) = Inr st1"
      and s: "statelist st' = statelist st1" "statelist_idx st' = statelist_idx st1" by blast
    have "trail_ok (st\<lparr>stack := stk, walk := w1\<rparr>)" using Cons.prems(2) by (simp add: trail_ok_def trail_def)
    from next_state_trail_ok[OF this n] have "trail_ok st1" .
    then show ?thesis using s by (simp add: trail_ok_def trail_def)
  qed
qed

lemma try_tokens_stack_ok:
  "try_tokens hs inp toks w st = Inr (Handled st') \<Longrightarrow> stack_ok st \<Longrightarrow> stack_ok st'"
proof (induction toks arbitrary: w)
  case Nil
  then show ?case by simp
next
  case (Cons t ts)
  show ?case
  proof (cases "lex_token t inp w")
    case (NoMatch w1)
    with Cons.prems(1) have "try_tokens hs inp ts w1 st = Inr (Handled st')"
      by (simp only: try_tokens_NoMatch)
    from Cons.IH[OF this Cons.prems(2)] show ?thesis .
  next
    case (Match w1 cap nl r)
    with Cons.prems(1) have "handle_match hs t w1 cap nl r st = Inr st'"
      by (simp only: try_tokens_Match map_ok_Handled)
    from handle_match_Inr[OF this] obtain stk st1 where
      c: "capture_value (token_identifier t) cap (stack st) = Inr stk"
      and n: "next_state hs t (st\<lparr>stack := stk, walk := w1\<rparr>) = Inr st1"
      and s: "stack st' = stack st1" by blast
    from capture_value_ok[OF _ _ c] Cons.prems(2) have "stack_ok (st\<lparr>stack := stk, walk := w1\<rparr>)"
      by (simp add: stack_ok_def)
    from next_state_stack_ok[OF this n] have "stack_ok st1" .
    then show ?thesis using s by (simp add: stack_ok_def)
  qed
qed


lemma try_tokens_Unhandled:
  "try_tokens hs inp toks w st = Inr (Unhandled w') \<Longrightarrow> w \<le> length inp \<Longrightarrow>
   w \<le> w' \<and> w' \<le> length inp \<and> (w' = w \<or> peek inp w' \<noteq> CHR 0x0A) \<and>
   (peek inp w = CHR 0x0A \<longrightarrow> \<not> has_end toks)"
proof (induction toks arbitrary: w)
  case Nil
  then show ?case by (simp add: has_end_def)
next
  case (Cons t ts)
  show ?case
  proof (cases "lex_token t inp w")
    case (Match w1 cap nl r)
    have "try_tokens hs inp (t # ts) w st \<noteq> Inr (Unhandled w')"
      by (simp only: try_tokens_Match[OF Match] map_ok_Handled) simp
    with Cons.prems(1) show ?thesis by simp
  next
    case (NoMatch w1)
    from lex_token_NoMatch[OF NoMatch Cons.prems(2)]
    have w1: "w \<le> w1" "w1 \<le> length inp" "w1 = w \<or> peek inp w1 \<noteq> CHR 0x0A"
      "peek inp w \<noteq> CHR 0x22 \<longrightarrow> w1 = w" by simp_all
    from Cons.prems(1) NoMatch have "try_tokens hs inp ts w1 st = Inr (Unhandled w')"
      by (simp only: try_tokens_NoMatch)
    from Cons.IH[OF this w1(2)]
    have ih: "w1 \<le> w'" "w' \<le> length inp" "w' = w1 \<or> peek inp w' \<noteq> CHR 0x0A"
      "peek inp w1 = CHR 0x0A \<longrightarrow> \<not> has_end ts" by simp_all
    have "peek inp w = CHR 0x0A \<longrightarrow> \<not> has_end (t # ts)"
    proof
      assume lf: "peek inp w = CHR 0x0A"
      with w1 have "w1 = w" by simp
      with ih lf have "\<not> has_end ts" by simp
      moreover have "\<not> (name t = ''end'' \<or> name t = ''line'')"
        using lex_token_end_line[of t inp w w1] NoMatch lf by auto
      ultimately show "\<not> has_end (t # ts)" by (simp add: has_end_def)
    qed
    with w1 ih show ?thesis by auto
  qed
qed

subsection \<open>Recovery\<close>

lemma nearest_error_spec:
  "n \<le> length sl \<Longrightarrow> nearest_error tokens sl n = spec_error_token tokens (take n sl)"
proof (induction n)
  case 0
  then show ?case by (simp add: spec_error_token_def)
next
  case (Suc n)
  then have t: "take (Suc n) sl = take n sl @ [sl ! n]" by (simp add: take_Suc_conv_app_nth)
  show ?case
  proof (cases "find (\<lambda>t. name t = ''error'') (tokens (sl ! n))")
    case None
    with Suc show ?thesis by (simp add: t spec_error_token_def has_error_def)
  next
    case (Some a)
    then show ?thesis by (simp add: t spec_error_token_def has_error_def)
  qed
qed

lemma nearest_error_Some:
  "nearest_error tokens sl n = Some t \<Longrightarrow> name t = ''error'' \<and> (\<exists>i<n. t \<in> set (tokens (sl ! i)))"
proof (induction n)
  case 0
  then show ?case by simp
next
  case (Suc n)
  show ?case
  proof (cases "find (\<lambda>t. name t = ''error'') (tokens (sl ! n))")
    case None
    with Suc show ?thesis by (auto simp: less_Suc_eq)
  next
    case (Some a)
    with Suc.prems have "a = t" by simp
    with Some show ?thesis by (auto simp: find_Some_iff)
  qed
qed

lemma nearest_error_exists:
  "0 < n \<Longrightarrow> has_error (tokens (sl ! 0)) \<Longrightarrow> nearest_error tokens sl n \<noteq> None"
proof (induction n)
  case 0
  then show ?case by simp
next
  case (Suc n)
  then show ?case by (cases n) (auto simp: has_error_def split: option.splits)
qed

lemma skip_line_bounds:
  "w \<le> length inp + 1 \<Longrightarrow>
   w \<le> skip_line inp w \<and> skip_line inp w \<le> length inp + 1 \<and>
   (skip_line inp w \<le> length inp \<longrightarrow> peek inp (skip_line inp w) = CHR 0x0A) \<and>
   (w \<le> k \<and> k < skip_line inp w \<longrightarrow> peek inp k \<noteq> CHR 0x0A)"
proof (intro conjI impI)
  assume w: "w \<le> length inp + 1"
  show "w \<le> skip_line inp w" by (simp add: skip_line_def scan_while_ge)
  show "skip_line inp w \<le> length inp + 1" using w by (simp add: skip_line_def scan_while_le)
next
  assume "skip_line inp w \<le> length inp"
  then have "skip_line inp w < length inp + 1" by simp
  then have "\<not> peek inp (skip_line inp w) \<noteq> CHR 0x0A"
    unfolding skip_line_def by (rule scan_while_stop)
  then show "peek inp (skip_line inp w) = CHR 0x0A" by simp
next
  assume "w \<le> k \<and> k < skip_line inp w"
  then show "peek inp k \<noteq> CHR 0x0A"
    unfolding skip_line_def using scan_while_all[of w k] by blast
qed


lemma recover_eq:
  assumes "trail_ok st" "has_error (tokens INITIAL)"
  shows "\<exists>tok. spec_error_token tokens (trail st) = Some tok \<and> name tok = ''error'' \<and>
           (\<exists>i<statelist_idx st. tok \<in> set (tokens (statelist st ! i))) \<and>
           recover tokens hs inp st =
             next_state hs tok (st\<lparr>walk := skip_line inp (walk st), stack := clear_stack (stack st)\<rparr>)"
proof -
  from assms have "nearest_error tokens (statelist st) (statelist_idx st) \<noteq> None"
    by (intro nearest_error_exists) (simp_all add: trail_ok_def)
  then obtain tok where t: "nearest_error tokens (statelist st) (statelist_idx st) = Some tok" by auto
  from nearest_error_spec[of "statelist_idx st" "statelist st" tokens] assms(1) t
  have "spec_error_token tokens (trail st) = Some tok" by (simp add: trail_ok_def trail_def)
  moreover from t have "recover tokens hs inp st =
             next_state hs tok (st\<lparr>walk := skip_line inp (walk st), stack := clear_stack (stack st)\<rparr>)"
    by (simp add: recover_def Let_def)
  ultimately show ?thesis using nearest_error_Some[OF t] by blast
qed

lemma recover_Inr:
  assumes "recover tokens hs inp st = Inr st'"
  shows "\<exists>tok i. name tok = ''error'' \<and> tok \<in> set (tokens (statelist st ! i)) \<and>
           next_state hs tok (st\<lparr>walk := skip_line inp (walk st), stack := clear_stack (stack st)\<rparr>) = Inr st'"
proof (cases "nearest_error tokens (statelist st) (statelist_idx st)")
  case None
  with assms show ?thesis by (simp add: recover_def Let_def)
next
  case (Some tok)
  with assms have "next_state hs tok (st\<lparr>walk := skip_line inp (walk st), stack := clear_stack (stack st)\<rparr>) = Inr st'"
    by (simp add: recover_def Let_def)
  with nearest_error_Some[OF Some] show ?thesis by blast
qed

lemma recover_trail_ok:
  assumes "trail_ok st" "recover tokens hs inp st = Inr st'"
  shows "trail_ok st'"
proof -
  let ?st2 = "st\<lparr>walk := skip_line inp (walk st), stack := clear_stack (stack st)\<rparr>"
  from recover_Inr[OF assms(2)] obtain tok where n: "next_state hs tok ?st2 = Inr st'" by blast
  have "trail_ok ?st2" using assms(1) by (simp add: trail_ok_def trail_def)
  from next_state_trail_ok[OF this n] show ?thesis .
qed

lemma recover_stack_ok:
  assumes "stack_ok st" "recover tokens hs inp st = Inr st'"
  shows "stack_ok st'"
proof -
  let ?st2 = "st\<lparr>walk := skip_line inp (walk st), stack := clear_stack (stack st)\<rparr>"
  from recover_Inr[OF assms(2)] obtain tok where n: "next_state hs tok ?st2 = Inr st'" by blast
  have "stack_ok ?st2" using assms(1) by (simp add: stack_ok_def clear_stack_contiguous)
  from next_state_stack_ok[OF this n] show ?thesis .
qed

lemma recover_fault:
  assumes "trail_ok st" "has_error (tokens INITIAL)" "recover tokens hs inp st = Inl f"
  shows "f = StatelistOverrun"
proof -
  from recover_eq[of st tokens hs inp] assms(1,2) obtain tok where
    "recover tokens hs inp st =
       next_state hs tok (st\<lparr>walk := skip_line inp (walk st), stack := clear_stack (stack st)\<rparr>)"
    by blast
  with assms(3) have "next_state hs tok (st\<lparr>walk := skip_line inp (walk st), stack := clear_stack (stack st)\<rparr>) = Inl f"
    by simp
  then show ?thesis by (rule next_state_fault)
qed

subsection \<open>One iteration of the main loop\<close>

lemma parse_step_Handled:
  "try_tokens hs inp (tokens (state st)) (skip_whitespace inp (walk st)) st = Inr (Handled st1) \<Longrightarrow>
   parse_step tokens hs inp st = Inr st1"
  by (simp add: parse_step_def)

lemma parse_step_Unhandled:
  "try_tokens hs inp (tokens (state st)) (skip_whitespace inp (walk st)) st = Inr (Unhandled w') \<Longrightarrow>
   parse_step tokens hs inp st =
     recover tokens hs inp
       (st\<lparr>walk := w', errormessages := errormessages st @ [errormessage (tokens (state st))]\<rparr>)"
  by (simp add: parse_step_def)

lemma parse_step_Inl:
  "try_tokens hs inp (tokens (state st)) (skip_whitespace inp (walk st)) st = Inl f \<Longrightarrow>
   parse_step tokens hs inp st = Inl f"
  by (simp add: parse_step_def)

lemma parse_step_trail_ok:
  assumes "trail_ok st" "parse_step tokens hs inp st = Inr st'"
  shows "trail_ok st'"
proof (cases "try_tokens hs inp (tokens (state st)) (skip_whitespace inp (walk st)) st")
  case (Inl f)
  with assms(2) show ?thesis by (simp add: parse_step_Inl)
next
  case (Inr r)
  show ?thesis
  proof (cases r)
    case (Handled st1)
    with Inr assms(2) have "try_tokens hs inp (tokens (state st)) (skip_whitespace inp (walk st)) st = Inr (Handled st')"
      by (simp add: parse_step_Handled)
    from try_tokens_trail_ok[OF this assms(1)] show ?thesis .
  next
    case (Unhandled w')
    let ?st1 = "st\<lparr>walk := w', errormessages := errormessages st @ [errormessage (tokens (state st))]\<rparr>"
    from Inr Unhandled assms(2) have r: "recover tokens hs inp ?st1 = Inr st'"
      by (simp add: parse_step_Unhandled)
    have "trail_ok ?st1" using assms(1) by (simp add: trail_ok_def trail_def)
    from recover_trail_ok[OF this r] show ?thesis .
  qed
qed

lemma parse_step_stack_ok:
  assumes "stack_ok st" "parse_step tokens hs inp st = Inr st'"
  shows "stack_ok st'"
proof (cases "try_tokens hs inp (tokens (state st)) (skip_whitespace inp (walk st)) st")
  case (Inl f)
  with assms(2) show ?thesis by (simp add: parse_step_Inl)
next
  case (Inr r)
  show ?thesis
  proof (cases r)
    case (Handled st1)
    with Inr assms(2) have "try_tokens hs inp (tokens (state st)) (skip_whitespace inp (walk st)) st = Inr (Handled st')"
      by (simp add: parse_step_Handled)
    from try_tokens_stack_ok[OF this assms(1)] show ?thesis .
  next
    case (Unhandled w')
    let ?st1 = "st\<lparr>walk := w', errormessages := errormessages st @ [errormessage (tokens (state st))]\<rparr>"
    from Inr Unhandled assms(2) have r: "recover tokens hs inp ?st1 = Inr st'"
      by (simp add: parse_step_Unhandled)
    have "stack_ok ?st1" using assms(1) by (simp add: stack_ok_def)
    from recover_stack_ok[OF this r] show ?thesis .
  qed
qed


lemma skip_whitespace_bounds: "w \<le> length inp \<Longrightarrow> w \<le> skip_whitespace inp w \<and> skip_whitespace inp w \<le> length inp"
  by (simp add: skip_whitespace_def scan_while_ge scan_while_le)


lemma reachable_trans:
  "reachable tokens hs inp st1 st2 \<Longrightarrow> reachable tokens hs inp st0 st1 \<Longrightarrow> reachable tokens hs inp st0 st2"
  by (induction rule: reachable.induct) (auto intro: reachable.intros)

lemma reachable_trail_ok:
  "reachable tokens hs inp st0 st \<Longrightarrow> trail_ok st0 \<Longrightarrow> trail_ok st"
  by (induction rule: reachable.induct) (auto dest: parse_step_trail_ok)

lemma reachable_stack_ok:
  "reachable tokens hs inp st0 st \<Longrightarrow> stack_ok st0 \<Longrightarrow> stack_ok st"
  by (induction rule: reachable.induct) (auto dest: parse_step_stack_ok)

lemma initial_trail_ok: "length sl = 10 \<Longrightarrow> sl ! 0 = INITIAL \<Longrightarrow> trail_ok (initial_parser hs stk sl h)"
  by (cases sl) (simp_all add: trail_ok_def trail_def initial_parser_def)


subsection \<open>Recovery and the stack during a parse\<close>

text \<open>
  Claim C1. At a state reached by a parse, when no descriptor matches (the cursor is at
  \<open>w'\<close> by then), the iteration appends the error message and then is the transition
  of an \<^verbatim>\<open>error\<close> descriptor: the first one of the first state, from the top of the trail
  toward the bottom, whose table has one. The transition starts from the cleared stack and
  from the cursor at the next line feed, or one behind the terminating NUL when there is
  none. With an \<^verbatim>\<open>error\<close> descriptor in \<^verbatim>\<open>INITIAL\<close>, which every trail has at position 0,
  the search never fails (the assertion holds); the iteration ends in a state of the
  parse again, unless the transition itself finds the state list full.
\<close>

theorem recovery_follows_nearest_error:
  assumes "has_error (tokens INITIAL)" "length sl = 10" "sl ! 0 = INITIAL"
    and "reachable tokens hs inp (initial_parser hs stk sl h) st" "walk st \<le> length inp"
    and "try_tokens hs inp (tokens (state st)) (skip_whitespace inp (walk st)) st = Inr (Unhandled w')"
  shows "\<exists>tok. spec_error_token tokens (trail st) = Some tok \<and> name tok = ''error'' \<and>
           parse_step tokens hs inp st =
             next_state hs tok
               (st\<lparr>walk := skip_line inp w', stack := clear_stack (stack st),
                    errormessages := errormessages st @ [errormessage (tokens (state st))]\<rparr>) \<and>
           all_unused (clear_stack (stack st)) \<and>
           w' \<le> skip_line inp w' \<and> skip_line inp w' \<le> length inp + 1 \<and>
           (skip_line inp w' \<le> length inp \<longrightarrow> peek inp (skip_line inp w') = CHR 0x0A) \<and>
           (\<forall>k. w' \<le> k \<and> k < skip_line inp w' \<longrightarrow> peek inp k \<noteq> CHR 0x0A) \<and>
           parse_step tokens hs inp st \<noteq> Inl AssertionFailed \<and>
           (\<forall>f. parse_step tokens hs inp st = Inl f \<longrightarrow> f = StatelistOverrun) \<and>
           (\<forall>st'. parse_step tokens hs inp st = Inr st' \<longrightarrow>
                  reachable tokens hs inp (initial_parser hs stk sl h) st')"
proof -
  let ?st1 = "st\<lparr>walk := w', errormessages := errormessages st @ [errormessage (tokens (state st))]\<rparr>"
  have t0: "trail_ok (initial_parser hs stk sl h)" using assms(2,3) by (rule initial_trail_ok)
  from reachable_trail_ok[OF assms(4) t0] have t: "trail_ok st" .
  then have t1: "trail_ok ?st1" by (simp add: trail_ok_def trail_def)
  have ps: "parse_step tokens hs inp st = recover tokens hs inp ?st1"
    using assms(6) by (rule parse_step_Unhandled)
  from recover_eq[of ?st1 tokens hs inp] t1 assms(1) obtain tok where
    tok: "spec_error_token tokens (trail ?st1) = Some tok" "name tok = ''error''"
    and r: "recover tokens hs inp ?st1 =
             next_state hs tok (?st1\<lparr>walk := skip_line inp (walk ?st1), stack := clear_stack (stack ?st1)\<rparr>)"
    by blast
  have e: "?st1\<lparr>walk := skip_line inp (walk ?st1), stack := clear_stack (stack ?st1)\<rparr> =
           st\<lparr>walk := skip_line inp w', stack := clear_stack (stack st),
              errormessages := errormessages st @ [errormessage (tokens (state st))]\<rparr>" by simp
  have 1: "spec_error_token tokens (trail st) = Some tok" using tok(1) by (simp add: trail_def)
  have 2: "parse_step tokens hs inp st =
             next_state hs tok
               (st\<lparr>walk := skip_line inp w', stack := clear_stack (stack st),
                    errormessages := errormessages st @ [errormessage (tokens (state st))]\<rparr>)"
    by (simp only: ps r e)
  from skip_whitespace_bounds[OF assms(5)] have "skip_whitespace inp (walk st) \<le> length inp" by simp
  from try_tokens_Unhandled[OF assms(6) this] have w': "w' \<le> length inp" by simp
  then have w'': "w' \<le> length inp + 1" by simp
  have 3: "w' \<le> skip_line inp w'" "skip_line inp w' \<le> length inp + 1"
    "skip_line inp w' \<le> length inp \<longrightarrow> peek inp (skip_line inp w') = CHR 0x0A"
    using skip_line_bounds[OF w'', of w'] by simp_all
  have 4: "\<forall>k. w' \<le> k \<and> k < skip_line inp w' \<longrightarrow> peek inp k \<noteq> CHR 0x0A"
    using skip_line_bounds[OF w''] by blast
  have 5: "\<forall>f. parse_step tokens hs inp st = Inl f \<longrightarrow> f = StatelistOverrun"
  proof (intro allI impI)
    fix f
    assume "parse_step tokens hs inp st = Inl f"
    with ps have "recover tokens hs inp ?st1 = Inl f" by simp
    from recover_fault[OF t1 assms(1) this] show "f = StatelistOverrun" .
  qed
  then have 6: "parse_step tokens hs inp st \<noteq> Inl AssertionFailed" by auto
  have 7: "\<forall>st'. parse_step tokens hs inp st = Inr st' \<longrightarrow>
                  reachable tokens hs inp (initial_parser hs stk sl h) st'"
    using reachable.step[OF assms(4,5)] by blast
  show ?thesis using 1 tok(2) 2 clear_stack_unused[of "stack st"] 3 4 5 6 7 by blast
qed

text \<open>
  Claim C10. In every state of a parse that starts with a contiguous 10-slot stack, the
  occupied slots of the stack are a prefix of the array; this stays so after the push that
  follows a match and after \<^verbatim>\<open>clear_stack\<close>. On such a stack \<^verbatim>\<open>get_string\<close> and
  \<^verbatim>\<open>get_long\<close> return the value of the first slot of the whole array that holds the
  identifier: no occupied slot lies behind a free one where the scan would miss it.
\<close>

theorem stack_contiguous_during_parse:
  assumes "length stk = 10" "contiguous stk"
    and "reachable tokens hs inp (initial_parser hs stk sl h) st"
  shows "length (stack st) = 10 \<and> contiguous (stack st) \<and>
         get_string i (stack st) = read_str (first_holder i (stack st)) \<and>
         get_long i (stack st) = read_num (first_holder i (stack st)) \<and>
         contiguous (clear_stack (stack st)) \<and>
         (capture_value ident cap (stack st) = Inr stk' \<longrightarrow>
            length stk' = 10 \<and> contiguous stk' \<and>
            get_string i stk' = read_str (first_holder i stk') \<and>
            get_long i stk' = read_num (first_holder i stk'))"
proof -
  have "stack_ok (initial_parser hs stk sl h)" using assms(1,2) by (simp add: stack_ok_def initial_parser_def)
  from reachable_stack_ok[OF assms(3) this] have ok: "length (stack st) = 10" "contiguous (stack st)"
    by (simp_all add: stack_ok_def)
  have g: "get_string i (stack st) = read_str (first_holder i (stack st))"
    "get_long i (stack st) = read_num (first_holder i (stack st))"
    using ok by (simp_all add: get_string_is_list get_long_is_list
                   get_string_list_contiguous get_long_list_contiguous)
  have c: "capture_value ident cap (stack st) = Inr stk' \<longrightarrow>
            length stk' = 10 \<and> contiguous stk' \<and>
            get_string i stk' = read_str (first_holder i stk') \<and>
            get_long i stk' = read_num (first_holder i stk')"
  proof
    assume "capture_value ident cap (stack st) = Inr stk'"
    from capture_value_ok[OF ok this] have "length stk' = 10" "contiguous stk'" by simp_all
    then show "length stk' = 10 \<and> contiguous stk' \<and>
            get_string i stk' = read_str (first_holder i stk') \<and>
            get_long i stk' = read_num (first_holder i stk')"
      by (simp add: get_string_is_list get_long_is_list
                   get_string_list_contiguous get_long_list_contiguous)
  qed
  show ?thesis using ok g c clear_stack_contiguous[of "stack st"] by blast
qed

lemma parse_steps_reachable:
  "parse_steps n tokens hs inp st0 = Inr st \<Longrightarrow> reachable tokens hs inp st0 st"
proof (induction n arbitrary: st0)
  case 0
  then show ?case by (auto intro: reachable.start)
next
  case (Suc n)
  show ?case
  proof (cases "walk st0 \<le> length inp")
    case False
    with Suc.prems show ?thesis by (auto intro: reachable.start)
  next
    case True
    show ?thesis
    proof (cases "parse_step tokens hs inp st0")
      case (Inl f)
      with True Suc.prems show ?thesis by simp
    next
      case (Inr st1)
      with True Suc.prems have "parse_steps n tokens hs inp st1 = Inr st" by simp
      from Suc.IH[OF this] have "reachable tokens hs inp st1 st" .
      moreover have "reachable tokens hs inp st0 st1"
        using reachable.step[OF reachable.start True Inr] .
      ultimately show ?thesis by (rule reachable_trans)
    qed
  qed
qed

theorem recovery_follows_nearest_error_witness:
  "has_error (workspace_tokens INITIAL) \<and> length (static_statelist INITIAL) = 10 \<and>
   static_statelist INITIAL ! 0 = INITIAL \<and>
   reachable workspace_tokens recording_handlers workspace_input first_parser after_workspace \<and>
   walk after_workspace \<le> length workspace_input \<and>
   try_tokens recording_handlers workspace_input (workspace_tokens (state after_workspace))
     (skip_whitespace workspace_input (walk after_workspace)) after_workspace = Inr (Unhandled 10) \<and>
   trail after_workspace = [INITIAL, State 1] \<and>
   spec_error_token workspace_tokens (trail after_workspace) = Some (mk_token ''error'' None INITIAL 0) \<and>
   skip_line workspace_input 10 = 11 \<and>
   parse_step workspace_tokens recording_handlers workspace_input after_workspace =
     next_state recording_handlers (mk_token ''error'' None INITIAL 0)
       (after_workspace\<lparr>walk := 11, stack := clear_stack (stack after_workspace),
          errormessages := errormessages after_workspace @ [errormessage (workspace_tokens (state after_workspace))]\<rparr>) \<and>
   parse_step workspace_tokens recording_handlers workspace_input after_workspace = Inr after_error \<and>
   reachable workspace_tokens recording_handlers workspace_input first_parser after_error"
proof -
  have a: "has_error (workspace_tokens INITIAL)" by code_simp
  have b: "length (static_statelist INITIAL) = 10" "static_statelist INITIAL ! 0 = INITIAL"
    by (simp_all add: static_statelist_def)
  have "parse_steps 1 workspace_tokens recording_handlers workspace_input first_parser = Inr after_workspace"
    by code_simp
  then have c: "reachable workspace_tokens recording_handlers workspace_input first_parser after_workspace"
    by (rule parse_steps_reachable)
  have d: "walk after_workspace \<le> length workspace_input" by code_simp
  have e: "try_tokens recording_handlers workspace_input (workspace_tokens (state after_workspace))
     (skip_whitespace workspace_input (walk after_workspace)) after_workspace = Inr (Unhandled 10)"
    by code_simp
  have f: "trail after_workspace = [INITIAL, State 1]" by code_simp
  have g: "spec_error_token workspace_tokens (trail after_workspace) = Some (mk_token ''error'' None INITIAL 0)"
    by code_simp
  have h: "skip_line workspace_input 10 = 11" by code_simp
  have i: "parse_step workspace_tokens recording_handlers workspace_input after_workspace = Inr after_error"
    by code_simp
  from recovery_follows_nearest_error[OF a b c[unfolded first_parser_def] d e]
  obtain tok where
    t: "spec_error_token workspace_tokens (trail after_workspace) = Some tok"
    and p: "parse_step workspace_tokens recording_handlers workspace_input after_workspace =
             next_state recording_handlers tok
               (after_workspace\<lparr>walk := skip_line workspace_input 10, stack := clear_stack (stack after_workspace),
                    errormessages := errormessages after_workspace @ [errormessage (workspace_tokens (state after_workspace))]\<rparr>)"
    and r: "\<forall>st'. parse_step workspace_tokens recording_handlers workspace_input after_workspace = Inr st' \<longrightarrow>
                  reachable workspace_tokens recording_handlers workspace_input
                    (initial_parser recording_handlers static_stack (static_statelist INITIAL) []) st'"
    by blast
  from t g have "tok = mk_token ''error'' None INITIAL 0" by simp
  with p h have j: "parse_step workspace_tokens recording_handlers workspace_input after_workspace =
     next_state recording_handlers (mk_token ''error'' None INITIAL 0)
       (after_workspace\<lparr>walk := 11, stack := clear_stack (stack after_workspace),
          errormessages := errormessages after_workspace @ [errormessage (workspace_tokens (state after_workspace))]\<rparr>)"
    by simp
  from r i have k: "reachable workspace_tokens recording_handlers workspace_input first_parser after_error"
    by (simp add: first_parser_def)
  show ?thesis using a b c d e f g h i j k by blast
qed


theorem stack_contiguous_during_parse_witness:
  "length static_stack = 10 \<and> contiguous static_stack \<and>
   reachable workspace_tokens recording_handlers workspace_input first_parser after_number \<and>
   stack after_number = static_stack[0 := new_long_entry ''num'' 7] \<and>
   length (stack after_number) = 10 \<and> contiguous (stack after_number) \<and>
   first_holder ''num'' (stack after_number) = Some (new_long_entry ''num'' 7) \<and>
   get_long ''num'' (stack after_number) = Inr 7 \<and>
   capture_value (Some ''t'') (CapString ''a'') (stack after_number)
     = Inr (static_stack[0 := new_long_entry ''num'' 7, 1 := new_string_entry ''t'' ''a'']) \<and>
   contiguous (static_stack[0 := new_long_entry ''num'' 7, 1 := new_string_entry ''t'' ''a'']) \<and>
   get_string ''t'' (static_stack[0 := new_long_entry ''num'' 7, 1 := new_string_entry ''t'' ''a''])
     = Inr (Some ''a'')"
proof -
  let ?s2 = "static_stack[0 := new_long_entry ''num'' 7, 1 := new_string_entry ''t'' ''a'']"
  have a: "length static_stack = 10" by (simp add: static_stack_def)
  have b: "contiguous static_stack" by code_simp
  have "parse_steps 5 workspace_tokens recording_handlers workspace_input first_parser = Inr after_number"
    by code_simp
  then have c: "reachable workspace_tokens recording_handlers workspace_input first_parser after_number"
    by (rule parse_steps_reachable)
  have d: "stack after_number = static_stack[0 := new_long_entry ''num'' 7]"
    by (simp add: after_number_def)
  have e: "first_holder ''num'' (stack after_number) = Some (new_long_entry ''num'' 7)" by code_simp
  have f: "capture_value (Some ''t'') (CapString ''a'') (stack after_number) = Inr ?s2" by code_simp
  have g: "first_holder ''t'' ?s2 = Some (new_string_entry ''t'' ''a'')" by code_simp
  from stack_contiguous_during_parse[OF a b c[unfolded first_parser_def],
      where i="''num''" and ident="Some ''t''" and cap="CapString ''a''" and stk'="?s2"] f e
  have 1: "length (stack after_number) = 10" "contiguous (stack after_number)"
    "get_long ''num'' (stack after_number) = Inr 7" "contiguous ?s2"
    by (simp_all add: read_num_def new_long_entry_def)
  from stack_contiguous_during_parse[OF a b c[unfolded first_parser_def],
      where i="''t''" and ident="Some ''t''" and cap="CapString ''a''" and stk'="?s2"] f g
  have 2: "get_string ''t'' ?s2 = Inr (Some ''a'')"
    by (simp add: read_str_def new_string_entry_def)
  show ?thesis using a b c d e f 1 2 by blast
qed

subsection \<open>Tables that fit the arrays\<close>





































lemma counting_grammar_ok: "grammar_ok counting_tokens"
  by (auto simp: grammar_ok_def counting_tokens_def mk_token_def has_end_def has_error_def)


text \<open>
  With \<open>stuck_tokens\<close> every iteration at the line feed ends where it began, one error
  message longer.
\<close>

lemma stuck_step:
  "parse_step stuck_tokens recording_handlers [CHR 0x0A] (stuck_parser ms) =
     Inr (stuck_parser (ms @ [errormessage (stuck_tokens (State 1))]))"
proof -
  let ?x = "mk_token [CHR 0x27, CHR ''x''] None (State 1) 0"
  let ?e = "mk_token ''error'' None (State 1) 0"
  have t: "stuck_tokens (State 1) = [?x]" by (simp add: stuck_tokens_def)
  have w: "skip_whitespace [CHR 0x0A] 0 = 0" by code_simp
  have l: "lex_token ?x [CHR 0x0A] 0 = NoMatch 0" by code_simp
  have s: "skip_line [CHR 0x0A] 0 = 0" by code_simp
  have n: "nearest_error stuck_tokens ((static_statelist INITIAL)[1 := State 1]) 2 = Some ?e" by code_simp
  have f: "statelist_search 0 2 ((static_statelist INITIAL)[1 := State 1]) (State 1) = Some 1" by code_simp
  have c: "clear_stack static_stack = static_stack" by code_simp
  have u: "try_tokens recording_handlers [CHR 0x0A] (stuck_tokens (state (stuck_parser ms)))
             (skip_whitespace [CHR 0x0A] (walk (stuck_parser ms))) (stuck_parser ms) = Inr (Unhandled 0)"
    by (simp add: stuck_parser_def first_parser_def initial_parser_def t w try_tokens_NoMatch[OF l]
          del: One_nat_def)
  show ?thesis
    unfolding parse_step_Unhandled[where tokens=stuck_tokens, OF u]
    by (simp add: recover_def next_state_def commit_def Let_def stuck_parser_def first_parser_def
          initial_parser_def s n f t c mk_token_def del: One_nat_def)
qed

lemma stuck_loop:
  "parse_loop fuel stuck_tokens recording_handlers [CHR 0x0A] (stuck_parser ms) = None"
proof (induction fuel arbitrary: ms)
  case 0
  show ?case by (simp add: stuck_parser_def first_parser_def initial_parser_def)
next
  case (Suc n)
  have "walk (stuck_parser ms) \<le> length [CHR 0x0A]"
    by (simp add: stuck_parser_def first_parser_def initial_parser_def)
  then show ?case by (simp add: stuck_step Suc.IH)
qed

lemma stuck_parse_never_returns:
  "parse_config fuel stuck_tokens recording_handlers [CHR 0x0A] static_stack (static_statelist INITIAL) [] = None"
proof (cases fuel)
  case 0
  then show ?thesis by (simp add: parse_config_def initial_parser_def)
next
  case (Suc n)
  have "parse_step stuck_tokens recording_handlers [CHR 0x0A] first_parser =
          Inr (stuck_parser [errormessage (stuck_tokens INITIAL)])" by code_simp
  moreover have "walk first_parser \<le> length [CHR 0x0A]" by code_simp
  ultimately show ?thesis
    using Suc by (simp add: parse_config_def first_parser_def[symmetric] stuck_loop)
qed

text \<open>
  With \<open>mixed_tokens\<close> the word is pushed under the identifier that holds the number:
  \<^verbatim>\<open>push_string\<close> takes the integer for the pointer to the old string.
\<close>

lemma mixed_capture_misread:
  "grammar_ok mixed_tokens \<and>
   parse_config 20 mixed_tokens recording_handlers (''1 a'' @ [CHR 0x0A]) static_stack (static_statelist INITIAL) []
     = Some (Inl UnionMisread)"
proof
  show "grammar_ok mixed_tokens"
    by (auto simp: grammar_ok_def mixed_tokens_def mk_token_def has_end_def has_error_def)
  show "parse_config 20 mixed_tokens recording_handlers (''1 a'' @ [CHR 0x0A]) static_stack (static_statelist INITIAL) []
     = Some (Inl UnionMisread)" by code_simp
qed

subsection \<open>Transitions during a parse\<close>

lemma next_state_unused:
  assumes "next_state hs tok st = Inr st'" "token_next_state tok = CALL \<or> state st' = INITIAL"
  shows "all_unused (stack st')"
proof -
  from next_state_fields[OF assms(1)]
  have f: "state st' = committed_state hs tok st" "stack st' = stack (commit hs tok st)" by simp_all
  with assms(2) have "token_next_state tok = CALL \<or> state (commit hs tok st) = INITIAL"
    by (simp add: commit_fields)
  then show ?thesis unfolding f by (rule commit_unused)
qed

lemma try_tokens_INITIAL_unused:
  "try_tokens hs inp toks w st = Inr (Handled st') \<Longrightarrow> state st' = INITIAL \<Longrightarrow> all_unused (stack st')"
proof (induction toks arbitrary: w)
  case Nil
  then show ?case by simp
next
  case (Cons t ts)
  show ?case
  proof (cases "lex_token t inp w")
    case (NoMatch w1)
    with Cons.prems(1) have "try_tokens hs inp ts w1 st = Inr (Handled st')"
      by (simp only: try_tokens_NoMatch)
    from Cons.IH[OF this Cons.prems(2)] show ?thesis .
  next
    case (Match w1 cap nl r)
    with Cons.prems(1) have "handle_match hs t w1 cap nl r st = Inr st'"
      by (simp only: try_tokens_Match map_ok_Handled)
    from handle_match_Inr[OF this] obtain stk st1 where
      n: "next_state hs t (st\<lparr>stack := stk, walk := w1\<rparr>) = Inr st1"
      and s: "stack st' = stack st1" "state st' = state st1" by blast
    from Cons.prems(2) s have "token_next_state t = CALL \<or> state st1 = INITIAL" by simp
    from next_state_unused[OF n this] show ?thesis using s by simp
  qed
qed

lemma parse_step_INITIAL_unused:
  assumes "parse_step tokens hs inp st = Inr st'" "state st' = INITIAL"
  shows "all_unused (stack st')"
proof (cases "try_tokens hs inp (tokens (state st)) (skip_whitespace inp (walk st)) st")
  case (Inl f)
  with assms(1) show ?thesis by (simp add: parse_step_Inl)
next
  case (Inr r)
  show ?thesis
  proof (cases r)
    case (Handled st1)
    with Inr assms(1) have "try_tokens hs inp (tokens (state st)) (skip_whitespace inp (walk st)) st = Inr (Handled st')"
      by (simp add: parse_step_Handled)
    from try_tokens_INITIAL_unused[OF this assms(2)] show ?thesis .
  next
    case (Unhandled w')
    let ?st1 = "st\<lparr>walk := w', errormessages := errormessages st @ [errormessage (tokens (state st))]\<rparr>"
    from Inr Unhandled assms(1) have "recover tokens hs inp ?st1 = Inr st'"
      by (simp add: parse_step_Unhandled)
    from recover_Inr[OF this] obtain tok where
      "next_state hs tok (?st1\<lparr>walk := skip_line inp (walk ?st1), stack := clear_stack (stack ?st1)\<rparr>) = Inr st'"
      by blast
    from next_state_unused[OF this] assms(2) show ?thesis by simp
  qed
qed

text \<open>
  Claim C2. After the first half of \<^verbatim>\<open>next_state\<close> (the handler call with its
  \<^verbatim>\<open>clear_stack\<close>, and the \<^verbatim>\<open>clear_stack\<close> on \<^verbatim>\<open>INITIAL\<close>), and so after every
  \<^verbatim>\<open>next_state\<close> that returns, every slot of the stack is unused whenever the descriptor's
  next state is \<^verbatim>\<open>__CALL\<close> or the committed state is \<^verbatim>\<open>INITIAL\<close>. The statement is about
  any state of the parser, so it holds at every transition of every parse; in particular
  the stack is unused after every iteration of the main loop that ends in \<^verbatim>\<open>INITIAL\<close>.
\<close>

theorem next_state_clears_stack:
  "(token_next_state tok = CALL \<or> state (commit hs tok st) = INITIAL \<longrightarrow>
      all_unused (stack (commit hs tok st))) \<and>
   (next_state hs tok st = Inr st' \<and> (token_next_state tok = CALL \<or> state st' = INITIAL) \<longrightarrow>
      all_unused (stack st') \<and> length (stack st') = length (stack st)) \<and>
   (parse_step tokens hs inp st = Inr st' \<and> state st' = INITIAL \<longrightarrow> all_unused (stack st'))"
proof (intro conjI impI)
  assume "token_next_state tok = CALL \<or> state (commit hs tok st) = INITIAL"
  then show "all_unused (stack (commit hs tok st))" by (rule commit_unused)
next
  assume a: "next_state hs tok st = Inr st' \<and> (token_next_state tok = CALL \<or> state st' = INITIAL)"
  then show "all_unused (stack st')" using next_state_unused[of hs tok st st'] by simp
  from a next_state_fields[of hs tok st st'] have "stack st' = stack (commit hs tok st)" by simp
  then show "length (stack st') = length (stack st)" by (simp add: commit_stack)
next
  assume "parse_step tokens hs inp st = Inr st' \<and> state st' = INITIAL"
  then show "all_unused (stack st')" using parse_step_INITIAL_unused[of tokens hs inp st st'] by simp
qed

text \<open>
  Claim C3. A transition to \<open>S\<close>: when \<open>S\<close> stands in the trail, first at position
  \<open>i\<close>, the trail is cut to length \<open>i + 1\<close> and the array is left as it is; when \<open>S\<close> is
  not in the trail (and the array has room), \<open>S\<close> is appended. After any transition
  \<^verbatim>\<open>statelist_idx\<close> is at least 1, and a trail without duplicates stays without duplicates;
  so in every state of a parse the trail has no duplicates and \<^verbatim>\<open>statelist_idx\<close> is at
  least 1.
\<close>

theorem next_state_trail:
  "length (statelist st) = 10 \<Longrightarrow> statelist_idx st \<le> 10 \<Longrightarrow> S = committed_state hs tok st \<Longrightarrow>
   (i < statelist_idx st \<and> statelist st ! i = S \<and> (\<forall>j<i. statelist st ! j \<noteq> S) \<longrightarrow>
      (\<exists>st'. next_state hs tok st = Inr st' \<and> statelist_idx st' = i + 1 \<and>
             statelist st' = statelist st \<and> trail st' = take (i + 1) (trail st))) \<and>
   (S \<notin> set (trail st) \<and> statelist_idx st < 10 \<longrightarrow>
      (\<exists>st'. next_state hs tok st = Inr st' \<and> statelist_idx st' = statelist_idx st + 1 \<and>
             statelist st' = (statelist st)[statelist_idx st := S] \<and> trail st' = trail st @ [S])) \<and>
   (next_state hs tok st = Inr st' \<longrightarrow>
      1 \<le> statelist_idx st' \<and> (distinct (trail st) \<longrightarrow> distinct (trail st'))) \<and>
   (length sl = 10 \<and> sl ! 0 = INITIAL \<and> reachable tokens hs inp (initial_parser hs stk sl h) st2 \<longrightarrow>
      1 \<le> statelist_idx st2 \<and> distinct (trail st2))"
proof (intro conjI impI)
  assume S: "S = committed_state hs tok st"
    and a: "i < statelist_idx st \<and> statelist st ! i = S \<and> (\<forall>j<i. statelist st ! j \<noteq> S)"
  then have "next_state hs tok st = Inr ((commit hs tok st)\<lparr>statelist_idx := i + 1\<rparr>)"
    using next_state_found[of i st hs tok] by simp
  moreover have "trail ((commit hs tok st)\<lparr>statelist_idx := i + 1\<rparr>) = take (i + 1) (trail st)"
    using a by (simp add: trail_def commit_fields min_def)
  ultimately show "\<exists>st'. next_state hs tok st = Inr st' \<and> statelist_idx st' = i + 1 \<and>
             statelist st' = statelist st \<and> trail st' = take (i + 1) (trail st)"
    by (simp add: commit_fields)
next
  assume len: "length (statelist st) = 10" and idx: "statelist_idx st \<le> 10"
    and S: "S = committed_state hs tok st"
    and a: "S \<notin> set (trail st) \<and> statelist_idx st < 10"
  then have "next_state hs tok st =
        Inr ((commit hs tok st)\<lparr>statelist := (statelist st)[statelist_idx st := S],
                                 statelist_idx := statelist_idx st + 1\<rparr>)"
    using next_state_new[of st hs tok] by simp
  moreover have "trail ((commit hs tok st)\<lparr>statelist := (statelist st)[statelist_idx st := S],
                                 statelist_idx := statelist_idx st + 1\<rparr>) = trail st @ [S]"
    using a len by (simp add: trail_def take_update_end)
  ultimately show "\<exists>st'. next_state hs tok st = Inr st' \<and> statelist_idx st' = statelist_idx st + 1 \<and>
             statelist st' = (statelist st)[statelist_idx st := S] \<and> trail st' = trail st @ [S]"
    by simp
next
  assume ns: "next_state hs tok st = Inr st'"
  then show "1 \<le> statelist_idx st'"
    by (auto simp: next_state_def Let_def split: option.splits if_splits)
next
  assume len: "length (statelist st) = 10" and idx: "statelist_idx st \<le> 10"
    and ns: "next_state hs tok st = Inr st'" and d: "distinct (trail st)"
  show "distinct (trail st')"
  proof (cases "statelist_search 0 (statelist_idx st) (statelist st) (committed_state hs tok st)")
    case None
    with ns have lt: "statelist_idx st < 10"
      and st': "st' = (commit hs tok st)\<lparr>statelist := (statelist st)[statelist_idx st := committed_state hs tok st],
                                 statelist_idx := statelist_idx st + 1\<rparr>"
      by (auto simp: next_state_def Let_def commit_fields split: if_splits)
    have "trail st' = trail st @ [committed_state hs tok st]"
      using len lt by (simp add: st' trail_def take_update_end)
    with search_None_notin[OF None] d show ?thesis by (simp add: trail_def)
  next
    case (Some k)
    with ns have st': "st' = (commit hs tok st)\<lparr>statelist_idx := k + 1\<rparr>"
      by (auto simp: next_state_def Let_def commit_fields)
    from statelist_search_Some[OF Some] have "k < statelist_idx st" by simp
    then have "trail st' = take (k + 1) (trail st)"
      by (simp add: st' trail_def commit_fields min_def)
    with d show ?thesis by simp
  qed
next
  assume a: "length sl = 10 \<and> sl ! 0 = INITIAL \<and> reachable tokens hs inp (initial_parser hs stk sl h) st2"
  then have "trail_ok (initial_parser hs stk sl h)" by (simp add: initial_trail_ok)
  with a have t: "trail_ok st2" using reachable_trail_ok by blast
  from t show "1 \<le> statelist_idx st2" by (simp add: trail_ok_def)
  from t show "distinct (trail st2)" by (simp add: trail_ok_def)
qed

theorem next_state_clears_stack_witness:
  "token_next_state (mk_token ''end'' None CALL 0) = CALL \<and>
   \<not> all_unused (stack (first_parser\<lparr>stack := static_stack[0 := new_long_entry ''num'' 7]\<rparr>)) \<and>
   all_unused (stack (commit recording_handlers (mk_token ''end'' None CALL 0)
      (first_parser\<lparr>stack := static_stack[0 := new_long_entry ''num'' 7]\<rparr>))) \<and>
   next_state recording_handlers (mk_token ''end'' None CALL 0)
      (first_parser\<lparr>stack := static_stack[0 := new_long_entry ''num'' 7]\<rparr>)
    = Inr ((commit recording_handlers (mk_token ''end'' None CALL 0)
      (first_parser\<lparr>stack := static_stack[0 := new_long_entry ''num'' 7]\<rparr>))\<lparr>statelist_idx := 1\<rparr>) \<and>
   all_unused (stack ((commit recording_handlers (mk_token ''end'' None CALL 0)
      (first_parser\<lparr>stack := static_stack[0 := new_long_entry ''num'' 7]\<rparr>))\<lparr>statelist_idx := 1\<rparr>)) \<and>
   parse_step workspace_tokens recording_handlers workspace_input after_workspace = Inr after_error \<and>
   state after_error = INITIAL \<and> all_unused (stack after_error)"
proof -
  let ?tok = "mk_token ''end'' None CALL 0"
  let ?st = "first_parser\<lparr>stack := static_stack[0 := new_long_entry ''num'' 7]\<rparr>"
  let ?st' = "(commit recording_handlers ?tok ?st)\<lparr>statelist_idx := 1\<rparr>"
  have a: "token_next_state ?tok = CALL" by (simp add: mk_token_def)
  have b: "\<not> all_unused (stack ?st)" by code_simp
  have c: "next_state recording_handlers ?tok ?st = Inr ?st'" by code_simp
  from next_state_clears_stack[of ?tok recording_handlers ?st ?st'] a c
  have d: "all_unused (stack (commit recording_handlers ?tok ?st)) \<and> all_unused (stack ?st')"
    by blast
  have e: "parse_step workspace_tokens recording_handlers workspace_input after_workspace = Inr after_error"
    "state after_error = INITIAL" by code_simp+
  from next_state_clears_stack[where st=after_workspace and st'=after_error and
      tokens=workspace_tokens and hs=recording_handlers and inp=workspace_input] e
  have f: "all_unused (stack after_error)" by blast
  show ?thesis using a b c d e f by blast
qed

theorem next_state_trail_witness:
  "length (statelist first_parser) = 10 \<and> statelist_idx first_parser \<le> 10 \<and>
   State 1 = committed_state recording_handlers (mk_token ''word'' None (State 1) 0) first_parser \<and>
   State 1 \<notin> set (trail first_parser) \<and> statelist_idx first_parser < 10 \<and>
   distinct (trail first_parser) \<and>
   (\<exists>st'. next_state recording_handlers (mk_token ''word'' None (State 1) 0) first_parser = Inr st' \<and>
          statelist_idx st' = 2 \<and> trail st' = [INITIAL, State 1] \<and> distinct (trail st')) \<and>
   INITIAL = committed_state recording_handlers (mk_token ''end'' None INITIAL 0)
      (first_parser\<lparr>statelist := (static_statelist INITIAL)[1 := State 1], statelist_idx := 2\<rparr>) \<and>
   (\<exists>st'. next_state recording_handlers (mk_token ''end'' None INITIAL 0)
            (first_parser\<lparr>statelist := (static_statelist INITIAL)[1 := State 1], statelist_idx := 2\<rparr>) = Inr st' \<and>
          statelist_idx st' = 1 \<and> trail st' = [INITIAL]) \<and>
   length (static_statelist INITIAL) = 10 \<and> static_statelist INITIAL ! 0 = INITIAL \<and>
   reachable workspace_tokens recording_handlers workspace_input first_parser after_number \<and>
   trail after_number = [INITIAL, State 1, State 2] \<and> distinct (trail after_number)"
proof -
  let ?t1 = "mk_token ''word'' None (State 1) 0"
  let ?t2 = "mk_token ''end'' None INITIAL 0"
  let ?st2 = "first_parser\<lparr>statelist := (static_statelist INITIAL)[1 := State 1], statelist_idx := 2\<rparr>"
  have a: "length (statelist first_parser) = 10" "statelist_idx first_parser \<le> 10"
    "State 1 = committed_state recording_handlers ?t1 first_parser"
    by (simp_all add: first_parser_def initial_parser_def static_statelist_def committed_state_def mk_token_def)
  have t: "trail first_parser = [INITIAL]"
    by (simp add: first_parser_def initial_parser_def static_statelist_def trail_def)
  have b: "State 1 \<notin> set (trail first_parser) \<and> statelist_idx first_parser < 10" "distinct (trail first_parser)"
    unfolding t by (simp_all add: first_parser_def initial_parser_def)
  from next_state_trail[OF a, of 0 _] b obtain st' where
    s: "next_state recording_handlers ?t1 first_parser = Inr st'"
       "statelist_idx st' = statelist_idx first_parser + 1" "trail st' = trail first_parser @ [State 1]"
    by blast
  from next_state_trail[OF a, of 0 st'] s(1) b(2) have d: "distinct (trail st')" by blast
  have e: "\<exists>st'. next_state recording_handlers ?t1 first_parser = Inr st' \<and>
          statelist_idx st' = 2 \<and> trail st' = [INITIAL, State 1] \<and> distinct (trail st')"
    using s d t by (auto simp: first_parser_def initial_parser_def)
  have a2: "length (statelist ?st2) = 10" "statelist_idx ?st2 \<le> 10"
    "INITIAL = committed_state recording_handlers ?t2 ?st2"
    by (simp_all add: first_parser_def initial_parser_def static_statelist_def committed_state_def mk_token_def)
  have t2: "trail ?st2 = [INITIAL, State 1]"
    by code_simp
  have c2: "0 < statelist_idx ?st2 \<and> statelist ?st2 ! 0 = INITIAL \<and> (\<forall>j<0. statelist ?st2 ! j \<noteq> INITIAL)"
    by (simp add: first_parser_def initial_parser_def static_statelist_def)
  from next_state_trail[OF a2, of 0 _] c2 obtain st'' where
    "next_state recording_handlers ?t2 ?st2 = Inr st''" "statelist_idx st'' = 0 + 1"
    "trail st'' = take (0 + 1) (trail ?st2)" by blast
  then have f: "\<exists>st'. next_state recording_handlers ?t2 ?st2 = Inr st' \<and> statelist_idx st' = 1 \<and> trail st' = [INITIAL]"
    unfolding t2 by simp
  have g: "length (static_statelist INITIAL) = 10 \<and> static_statelist INITIAL ! 0 = INITIAL"
    by (simp add: static_statelist_def)
  have "parse_steps 5 workspace_tokens recording_handlers workspace_input first_parser = Inr after_number"
    by code_simp
  then have r: "reachable workspace_tokens recording_handlers workspace_input first_parser after_number"
    by (rule parse_steps_reachable)
  have tn: "trail after_number = [INITIAL, State 1, State 2]" by code_simp
  from next_state_trail[OF a, where sl="static_statelist INITIAL" and tokens=workspace_tokens and
      inp=workspace_input and stk=static_stack and h="[]" and ?st2.0=after_number]
    g r[unfolded first_parser_def]
  have dn: "distinct (trail after_number)" by blast
  show ?thesis using a b e a2(3) f g r tn dn by blast
qed

subsection \<open>Two scenarios of the specification\<close>

text \<open>The handler of \<^verbatim>\<open>tags a b\<close> sees \<^verbatim>\<open>a,b\<close>; the one of \<^verbatim>\<open>exec "echo \"hi\""\<close> sees \<^verbatim>\<open>echo "hi"\<close>.\<close>

lemma tags_scenario:
  "map_option (map_ok (\<lambda>st. (seen ''t'' st, errormessages st, state st)))
     (parse_config 50 tags_tokens recording_handlers (''tags a b'' @ [CHR 0x0A])
        static_stack (static_statelist INITIAL) [])
   = Some (Inr ([(0, Inr (Some ''a,b''))], [], INITIAL))"
  by code_simp

lemma exec_scenario:
  "map_option (map_ok (\<lambda>st. (seen ''cmd'' st, errormessages st, state st)))
     (parse_config 50 tags_tokens recording_handlers exec_line
        static_stack (static_statelist INITIAL) [])
   = Some (Inr ([(1, Inr (Some (''echo '' @ [CHR 0x22] @ ''hi'' @ [CHR 0x22])))], [], INITIAL))"
  by code_simp

end
